theory Spec2Isabelle
  imports Main "HOL-Library.AList"
begin

section \<open>The knex/PostgreSQL storage adapter of an OpenID Connect provider\<close>

text \<open>
  This theory embeds \<^verbatim>\<open>src/storage_adapter.js\<close> (the first of the two
  variants in that file, the one with \<^verbatim>\<open>schedulePurge\<close>): the class
  \<^verbatim>\<open>StorageAdapter\<close>, its module-level purge variables and the
  asynchronous purge scheduling.

  Conventions of the embedding.
  \<^item> An instant is the number of milliseconds of a JavaScript \<^verbatim>\<open>Date\<close>
    (\<^verbatim>\<open>Date.now()\<close>, \<^verbatim>\<open>new Date()\<close>), an unbounded integer here.
  \<^item> JavaScript runs one synchronous segment at a time; a segment ends at an
    \<^verbatim>\<open>await\<close>. Each segment is one function on the state, and it reads the
    clock once (its argument \<open>now\<close>).
  \<^item> A database statement is atomic and takes effect when the promise it was issued with
    settles. A statement succeeds (the connection is up), but for one whose text the
    database refuses to read as JSON.
  \<^item> A promise that is fulfilled is \<open>Inr\<close>, one that is rejected is \<open>Inl\<close>.
  \<^item> A table is the list of its rows, in the order a query without
    \<^verbatim>\<open>ORDER BY\<close> returns them; the database maps table names to tables.
\<close>

subsection \<open>Data\<close>

type_synonym instant = int

text \<open>The value of a \<^verbatim>\<open>jsonb\<close> column.\<close>

datatype json =
    JNull
  | JBool bool
  | JNum int
  | JStr string
  | JArr "json list"
  | JObj "(string \<times> json) list"

text \<open>The payload handed over by oidc-provider is a JSON object.\<close>

type_synonym payload = "(string \<times> json) list"

text \<open>
  One row of a table. The source names the columns
  \<^verbatim>\<open>id\<close>, \<^verbatim>\<open>data\<close>, \<^verbatim>\<open>created_at\<close>,
  \<^verbatim>\<open>updated_at\<close> and \<^verbatim>\<open>expires_at\<close>; \<open>None\<close> is SQL's
  \<^verbatim>\<open>NULL\<close>.
\<close>

record row =
  row_id :: string
  data :: payload
  created_at :: instant
  updated_at :: "instant option"
  expires_at :: "instant option"

type_synonym database = "string \<Rightarrow> row list"

text \<open>
  The object \<^verbatim>\<open>update_props\<close> of \<^verbatim>\<open>upsert\<close>: \<^verbatim>\<open>data\<close>
  is always there, the other properties only when they were assigned. The property
  \<^verbatim>\<open>id\<close> of the insert branch is carried beside it.
\<close>

record update_props =
  data_prop :: payload
  expires_at_prop :: "instant option"
  updated_at_prop :: "instant option"

text \<open>
  What a promise is rejected with: the \<^verbatim>\<open>TypeError\<close> of JavaScript, or the error of
  the database on a text that is not JSON.
\<close>

datatype error = TypeError | DatabaseError

text \<open>
  A call of \<^verbatim>\<open>schedulePurge\<close> that passed its guard is suspended either at
  \<^verbatim>\<open>await this.purge()\<close> (the deletions, bound to the instant read by
  \<^verbatim>\<open>purge\<close>, are in flight) or at \<^verbatim>\<open>await delay(...)\<close> (a timer
  that is due at the given instant).
\<close>

datatype sweep_task =
    AwaitPurge instant
  | AwaitDelay instant

text \<open>
  A call of \<^verbatim>\<open>upsert\<close> is suspended at the select (table, id, properties so
  far), at the update or at the insert.
\<close>

datatype upsert_task =
    AwaitSelect string string update_props
  | AwaitUpdate string string update_props
  | AwaitInsert string string update_props

text \<open>
  The state: the database, the five module-level variables of the source, the messages
  passed to \<^verbatim>\<open>logger.debug\<close> (oldest first), and the suspended calls.
\<close>

record world =
  db :: database
  purge_single_execution_protection_delay :: int
  purge_every_upserts_count :: int
  upserts_since_purge_count :: int
  purge_scheduled :: bool
  purge_last_date :: "instant option"
  debug_log :: "string list"
  sweep_tasks :: "sweep_task list"
  upsert_tasks :: "upsert_task list"

definition VOLATILE_TYPES :: "string list" where
  "VOLATILE_TYPES =
    [''Session'', ''AccessToken'', ''AuthorizationCode'', ''RefreshToken'',
     ''ClientCredentials'', ''InitialAccessToken'', ''RegistrationAccessToken'',
     ''DeviceCode'', ''Interaction'', ''ReplayDetection'',
     ''PushedAuthorizationRequest'']"

text \<open>
  The module state when the file has just been loaded, over a database \<open>d\<close>.
\<close>

definition initial_world :: "database \<Rightarrow> world" where
  "initial_world d =
    \<lparr>db = d,
     purge_single_execution_protection_delay = 2000,
     purge_every_upserts_count = 1000,
     upserts_since_purge_count = 0,
     purge_scheduled = False,
     purge_last_date = None,
     debug_log = [],
     sweep_tasks = [],
     upsert_tasks = []\<rparr>"

text \<open>
  The constructor: \<^verbatim>\<open>this.table_name = `oidc.${toSnakeCase(name)}`\<close>. The package
  \<^verbatim>\<open>to-snake-case\<close> is not part of the repository; it is the parameter
  \<open>toSnakeCase\<close>. An instance of the class is its table name.
\<close>

definition StorageAdapter :: "(string \<Rightarrow> string) \<Rightarrow> string \<Rightarrow> string" where
  "StorageAdapter toSnakeCase name = ''oidc.'' @ toSnakeCase name"

subsection \<open>The statements sent to the database\<close>

text \<open>\<^verbatim>\<open>.where({id})\<close>\<close>

definition where_id :: "string \<Rightarrow> row list \<Rightarrow> row list" where
  "where_id i rows = filter (\<lambda>r. row_id r = i) rows"

text \<open>
  \<^verbatim>\<open>whereNull('expires_at').orWhere('expires_at', '>', new Date())\<close>
\<close>

definition not_expired :: "instant \<Rightarrow> row \<Rightarrow> bool" where
  "not_expired now r = (case expires_at r of None \<Rightarrow> True | Some e \<Rightarrow> now < e)"

text \<open>
  \<^verbatim>\<open>where('data', '@>', `{"uid": "${uid}"}`)\<close>. The source puts the value into the
  text as it is, with no escaping. \<open>interpolated\<close> is that text.
\<close>

definition interpolated :: "string \<Rightarrow> string \<Rightarrow> string" where
  "interpolated k v =
     [CHR ''{'', CHR 0x22] @ k @ [CHR 0x22, CHR '':'', CHR '' '', CHR 0x22] @ v @
     [CHR 0x22, CHR ''}'']"

text \<open>
  A value that JSON writes between double quotes as it is: it has no double quote, no
  backslash and no control character (below U+0020). For such a value the text is the JSON
  of the object with the one property.
\<close>

definition json_plain :: "string \<Rightarrow> bool" where
  "json_plain v =
     list_all (\<lambda>c. c \<noteq> CHR 0x22 \<and> c \<noteq> CHR 0x5C \<and> (32::nat) \<le> of_char c) v"

text \<open>
  The row's object contains the object with the one property \<open>k\<close> of value \<open>v\<close>: it
  has that property with that string as its value. This is the condition of the statement
  when the text is read as that object, which holds for the values \<open>json_plain\<close>;
  \<open>where_data\<close> below uses it for those only.
\<close>

definition data_contains :: "string \<Rightarrow> string \<Rightarrow> row \<Rightarrow> bool" where
  "data_contains k v r = (map_of (data r) k = Some (JStr v))"

text \<open>
  What PostgreSQL makes of \<^verbatim>\<open>data @> text\<close> for any other text is not in the
  repository; it is the parameter \<open>jsonb\<close>: \<open>None\<close> when it refuses the text (the
  statement fails), else the objects it takes to contain what it has read. \<open>where_data\<close>
  is the condition on the rows, if there is one.
\<close>

type_synonym containment = "string \<Rightarrow> (payload \<Rightarrow> bool) option"

definition where_data :: "containment \<Rightarrow> string \<Rightarrow> string \<Rightarrow> (row \<Rightarrow> bool) option" where
  "where_data jsonb k v =
     (if json_plain v then Some (data_contains k v)
      else (case jsonb (interpolated k v) of
              None \<Rightarrow> None
            | Some holds \<Rightarrow> Some (\<lambda>r. holds (data r))))"

text \<open>\<^verbatim>\<open>.update(props)\<close> on one row: only the properties present are written.\<close>

definition set_props :: "update_props \<Rightarrow> row \<Rightarrow> row" where
  "set_props props r =
     r\<lparr>data := data_prop props,
       expires_at := (case expires_at_prop props of None \<Rightarrow> expires_at r | Some e \<Rightarrow> Some e),
       updated_at := (case updated_at_prop props of None \<Rightarrow> updated_at r | Some u \<Rightarrow> Some u)\<rparr>"

text \<open>\<^verbatim>\<open>.where({id}).update(props)\<close>\<close>

definition update_where_id :: "string \<Rightarrow> update_props \<Rightarrow> row list \<Rightarrow> row list" where
  "update_where_id i props rows = map (\<lambda>r. if row_id r = i then set_props props r else r) rows"

text \<open>
  Modelled from the spec: the table definitions are not in the source. The spec's data
  model says that \<^verbatim>\<open>created_at\<close> is set once, at first insertion, and that
  \<^verbatim>\<open>updated_at\<close> is absent on a pure insert; so an insert that gives neither
  column stores the instant of the insertion and \<^verbatim>\<open>NULL\<close>.
\<close>

definition insert_row :: "instant \<Rightarrow> string \<Rightarrow> update_props \<Rightarrow> row list \<Rightarrow> row list" where
  "insert_row now i props rows =
     rows @ [\<lparr>row_id = i, data = data_prop props, created_at = now,
              updated_at = updated_at_prop props, expires_at = expires_at_prop props\<rparr>]"

text \<open>\<^verbatim>\<open>.where('expires_at', '<=', now).del()\<close>: a \<^verbatim>\<open>NULL\<close> never compares.\<close>

definition expired_at :: "instant \<Rightarrow> row \<Rightarrow> bool" where
  "expired_at now r = (case expires_at r of None \<Rightarrow> False | Some e \<Rightarrow> e \<le> now)"

definition del_expired :: "instant \<Rightarrow> row list \<Rightarrow> row list" where
  "del_expired now rows = filter (\<lambda>r. \<not> expired_at now r) rows"

subsection \<open>The purge\<close>

text \<open>
  \<^verbatim>\<open>purge\<close> issues one deletion per volatile type and awaits them together. The
  deletions are separate statements on the tables named by the types; \<open>purge_deletes\<close>
  is the database after all of them.
\<close>

definition purge_deletes :: "(string \<Rightarrow> string) \<Rightarrow> instant \<Rightarrow> database \<Rightarrow> database" where
  "purge_deletes toSnakeCase now d =
     fold (\<lambda>volatile_type_name d'.
             d'(StorageAdapter toSnakeCase volatile_type_name :=
                  del_expired now (d' (StorageAdapter toSnakeCase volatile_type_name))))
          VOLATILE_TYPES d"

text \<open>A call of \<^verbatim>\<open>purge\<close> run to its end; \<open>now\<close> is its \<^verbatim>\<open>new Date()\<close>.\<close>

definition purge :: "(string \<Rightarrow> string) \<Rightarrow> instant \<Rightarrow> world \<Rightarrow> (error + unit) \<times> world" where
  "purge toSnakeCase now w =
     (Inr (), w\<lparr>purge_last_date := Some now, db := purge_deletes toSnakeCase now (db w)\<rparr>)"

text \<open>
  \<^verbatim>\<open>schedulePurge\<close> up to its first suspension: the guard, the two assignments, the
  log line, and the synchronous start of \<^verbatim>\<open>purge\<close> (which reads the clock, stores
  it in \<^verbatim>\<open>purge_last_date\<close> and issues the deletions).
\<close>

definition schedulePurge :: "instant \<Rightarrow> world \<Rightarrow> world" where
  "schedulePurge now w =
     (if purge_scheduled w
      then w\<lparr>debug_log := debug_log w @ [''A purge is already scheduled'']\<rparr>
      else w\<lparr>purge_scheduled := True,
             upserts_since_purge_count := 0,
             debug_log := debug_log w @ [''Scheduling a new purge''],
             purge_last_date := Some now,
             sweep_tasks := sweep_tasks w @ [AwaitPurge now]\<rparr>)"

definition remove_nth :: "nat \<Rightarrow> 'a list \<Rightarrow> 'a list" where
  "remove_nth k xs = take k xs @ drop (Suc k) xs"

text \<open>
  The suspended call number \<open>k\<close> of \<^verbatim>\<open>schedulePurge\<close> goes on at the instant
  \<open>now\<close>. At \<^verbatim>\<open>await this.purge()\<close> the deletions have been done and the timer
  of \<^verbatim>\<open>delay\<close> is set with the delay the variable holds now. At
  \<^verbatim>\<open>await delay(...)\<close> the call goes on only once the timer is due, and clears
  \<^verbatim>\<open>purge_scheduled\<close>. \<open>None\<close>: there is no such call, or it cannot go on yet.
\<close>

definition schedulePurge_resume ::
  "(string \<Rightarrow> string) \<Rightarrow> nat \<Rightarrow> instant \<Rightarrow> world \<Rightarrow> world option" where
  "schedulePurge_resume toSnakeCase k now w =
     (if k < length (sweep_tasks w) then
        (case sweep_tasks w ! k of
           AwaitPurge bound \<Rightarrow>
             Some (w\<lparr>db := purge_deletes toSnakeCase bound (db w),
                     sweep_tasks := (sweep_tasks w)
                       [k := AwaitDelay (now + purge_single_execution_protection_delay w)]\<rparr>)
         | AwaitDelay due \<Rightarrow>
             if due \<le> now
             then Some (w\<lparr>purge_scheduled := False,
                          sweep_tasks := remove_nth k (sweep_tasks w)\<rparr>)
             else None)
      else None)"

subsection \<open>The record store\<close>

text \<open>
  \<^verbatim>\<open>upsert\<close> up to its first \<^verbatim>\<open>await\<close>: the counter, the scheduling of a
  purge (not awaited), and \<^verbatim>\<open>update_props\<close>. \<^verbatim>\<open>if (expiresIn)\<close> is
  JavaScript's truthiness: \<^verbatim>\<open>undefined\<close> (\<open>None\<close>) and \<open>0\<close> are falsy.
\<close>

definition upsert_begin :: "payload \<Rightarrow> int option \<Rightarrow> instant \<Rightarrow> world \<Rightarrow> update_props \<times> world" where
  "upsert_begin payload expiresIn now w =
     (let w1 = w\<lparr>upserts_since_purge_count := upserts_since_purge_count w + 1\<rparr>;
          w2 = (if upserts_since_purge_count w1 \<ge> purge_every_upserts_count w1
                then schedulePurge now w1 else w1);
          update_props = \<lparr>data_prop = payload, expires_at_prop = None, updated_at_prop = None\<rparr>
      in (case expiresIn of
            None \<Rightarrow> (update_props, w2)
          | Some e \<Rightarrow>
              if e \<noteq> 0
              then (update_props\<lparr>expires_at_prop := Some (now + e * 1000)\<rparr>, w2)
              else (update_props, w2)))"

text \<open>
  The select has answered, at the instant \<open>now\<close>: \<^verbatim>\<open>if (record.length)\<close> chooses
  the update, with \<^verbatim>\<open>updated_at = new Date()\<close>, or the insert.
\<close>

definition upsert_selected :: "string \<Rightarrow> string \<Rightarrow> update_props \<Rightarrow> instant \<Rightarrow> database \<Rightarrow> upsert_task" where
  "upsert_selected table_name i update_props now d =
     (let record = where_id i (d table_name)
      in if length record \<noteq> 0
         then AwaitUpdate table_name i (update_props\<lparr>updated_at_prop := Some now\<rparr>)
         else AwaitInsert table_name i update_props)"

text \<open>The statement a suspended \<^verbatim>\<open>upsert\<close> waits for, done at the instant \<open>now\<close>.\<close>

fun upsert_statement :: "upsert_task \<Rightarrow> instant \<Rightarrow> database \<Rightarrow> database" where
  "upsert_statement (AwaitSelect table_name i props) now d = d"
| "upsert_statement (AwaitUpdate table_name i props) now d =
     d(table_name := update_where_id i props (d table_name))"
| "upsert_statement (AwaitInsert table_name i props) now d =
     d(table_name := insert_row now i props (d table_name))"

text \<open>
  The three segments of a call of \<^verbatim>\<open>upsert\<close> one after the other, with nothing
  in between: \<open>now\<close> is the instant of the call, \<open>now_s\<close> the later instant at which the
  select has answered, \<open>now_w\<close> the instant of the write. This is the call run to its end
  when it starts no purge. When it starts one, the purge stays suspended here, its
  deletions not done; the source sends those deletions before the select, and
  \<open>upsert_ends\<close> below is the call with the deletions done first.
\<close>

definition upsert ::
  "string \<Rightarrow> string \<Rightarrow> payload \<Rightarrow> int option \<Rightarrow> instant \<Rightarrow> instant \<Rightarrow> instant \<Rightarrow> world \<Rightarrow>
     (error + unit) \<times> world" where
  "upsert table_name i payload expiresIn now now_s now_w w =
     (let (update_props, w1) = upsert_begin payload expiresIn now w;
          task = upsert_selected table_name i update_props now_s (db w1)
      in (Inr (), w1\<lparr>db := upsert_statement task now_w (db w1)\<rparr>))"

text \<open>\<^verbatim>\<open>if (!record.length) return null; return record[0].data;\<close>\<close>

definition first_data :: "row list \<Rightarrow> payload option" where
  "first_data record = (case record of [] \<Rightarrow> None | r # _ \<Rightarrow> Some (data r))"

definition find_op :: "string \<Rightarrow> string \<Rightarrow> instant \<Rightarrow> world \<Rightarrow> (error + payload option) \<times> world" where
  "find_op table_name i now w =
     (Inr (first_data (filter (\<lambda>r. row_id r = i \<and> not_expired now r) (db w table_name))), w)"

definition findByUid ::
  "containment \<Rightarrow> string \<Rightarrow> string \<Rightarrow> instant \<Rightarrow> world \<Rightarrow> (error + payload option) \<times> world" where
  "findByUid jsonb table_name uid now w =
     (case where_data jsonb ''uid'' uid of
        None \<Rightarrow> (Inl DatabaseError, w)
      | Some cond \<Rightarrow>
          (Inr (first_data (filter (\<lambda>r. cond r \<and> not_expired now r) (db w table_name))),
           w))"

definition findByUserCode ::
  "containment \<Rightarrow> string \<Rightarrow> string \<Rightarrow> instant \<Rightarrow> world \<Rightarrow> (error + payload option) \<times> world" where
  "findByUserCode jsonb table_name userCode now w =
     (case where_data jsonb ''userCode'' userCode of
        None \<Rightarrow> (Inl DatabaseError, w)
      | Some cond \<Rightarrow>
          (Inr (first_data (filter (\<lambda>r. cond r \<and> not_expired now r) (db w table_name))),
           w))"

text \<open>
  \<^verbatim>\<open>consume\<close>, run to its end with no other statement in between. Reading
  \<^verbatim>\<open>record[0].data\<close> when no row was selected throws a \<^verbatim>\<open>TypeError\<close>, which
  rejects the promise. \<^verbatim>\<open>Date.prototype.toISOString\<close> is the parameter
  \<open>toISOString\<close>.
\<close>

definition consume ::
  "(instant \<Rightarrow> string) \<Rightarrow> string \<Rightarrow> string \<Rightarrow> instant \<Rightarrow> world \<Rightarrow> (error + unit) \<times> world" where
  "consume toISOString table_name i now w =
     (case where_id i (db w table_name) of
        [] \<Rightarrow> (Inl TypeError, w)
      | r # _ \<Rightarrow>
          (let data' = AList.update ''consumed'' (JStr (toISOString now)) (data r)
           in (Inr (),
               w\<lparr>db := (db w)(table_name :=
                    update_where_id i
                      \<lparr>data_prop = data', expires_at_prop = None, updated_at_prop = None\<rparr>
                      (db w table_name))\<rparr>)))"

definition destroy :: "string \<Rightarrow> string \<Rightarrow> world \<Rightarrow> (error + unit) \<times> world" where
  "destroy table_name i w =
     (Inr (), w\<lparr>db := (db w)(table_name := filter (\<lambda>r. row_id r \<noteq> i) (db w table_name))\<rparr>)"

definition revokeByGrantId ::
  "containment \<Rightarrow> string \<Rightarrow> string \<Rightarrow> world \<Rightarrow> (error + unit) \<times> world" where
  "revokeByGrantId jsonb table_name grantId w =
     (case where_data jsonb ''grantId'' grantId of
        None \<Rightarrow> (Inl DatabaseError, w)
      | Some cond \<Rightarrow>
          (Inr (), w\<lparr>db := (db w)(table_name :=
                       filter (\<lambda>r. \<not> cond r) (db w table_name))\<rparr>))"

text \<open>
  \<^verbatim>\<open>get\<close>: \<^verbatim>\<open>if (ids)\<close> holds for every array, the empty one too. The sorting
  by \<^verbatim>\<open>options.order_by\<close> is done by the database; it is the parameter
  \<open>orderBy\<close>.
\<close>

definition get ::
  "string list option \<Rightarrow> (row list \<Rightarrow> row list) \<Rightarrow> string \<Rightarrow> world \<Rightarrow> (error + row list) \<times> world" where
  "get ids orderBy table_name w =
     (Inr (orderBy (case ids of
                      None \<Rightarrow> db w table_name
                    | Some is \<Rightarrow> filter (\<lambda>r. row_id r \<in> set is) (db w table_name))), w)"

definition destroyAll :: "string \<Rightarrow> world \<Rightarrow> (error + unit) \<times> world" where
  "destroyAll table_name w = (Inr (), w\<lparr>db := (db w)(table_name := [])\<rparr>)"

subsection \<open>The class methods\<close>

record stats =
  type_name :: string
  count :: nat
  date_min :: "instant option"
  date_max :: "instant option"

text \<open>SQL's \<^verbatim>\<open>min\<close> and \<^verbatim>\<open>max\<close>: \<^verbatim>\<open>NULL\<close> over no rows.\<close>

fun sql_min :: "instant list \<Rightarrow> instant option" where
  "sql_min [] = None"
| "sql_min (x # xs) = Some (fold min xs x)"

fun sql_max :: "instant list \<Rightarrow> instant option" where
  "sql_max [] = None"
| "sql_max (x # xs) = Some (fold max xs x)"

definition getVolatileRecordsStats ::
  "(string \<Rightarrow> string) \<Rightarrow> world \<Rightarrow> (error + stats list) \<times> world" where
  "getVolatileRecordsStats toSnakeCase w =
     (Inr (map (\<lambda>volatile_type_name.
                  let res = db w (StorageAdapter toSnakeCase volatile_type_name)
                  in \<lparr>type_name = volatile_type_name,
                      count = length res,
                      date_min = sql_min (map created_at res),
                      date_max = sql_max (map created_at res)\<rparr>)
               VOLATILE_TYPES), w)"

definition deleteVolatileRecords :: "(string \<Rightarrow> string) \<Rightarrow> world \<Rightarrow> (error + unit) \<times> world" where
  "deleteVolatileRecords toSnakeCase w =
     (Inr (), fold (\<lambda>volatile_type_name w'.
                      snd (destroyAll (StorageAdapter toSnakeCase volatile_type_name) w'))
                   VOLATILE_TYPES w)"

text \<open>
  \<^verbatim>\<open>setPurgeProperties\<close>: a property that is missing (\<open>None\<close>) or \<open>0\<close> is falsy
  and leaves its variable as it is.
\<close>

definition setPurgeProperties :: "int option \<Rightarrow> int option \<Rightarrow> world \<Rightarrow> world" where
  "setPurgeProperties delay_prop count_prop w =
     (let w1 = (case delay_prop of
                  None \<Rightarrow> w
                | Some d \<Rightarrow> if d \<noteq> 0 then w\<lparr>purge_single_execution_protection_delay := d\<rparr> else w)
      in (case count_prop of
            None \<Rightarrow> w1
          | Some c \<Rightarrow> if c \<noteq> 0 then w1\<lparr>purge_every_upserts_count := c\<rparr> else w1))"

definition getPurgeInfo :: "world \<Rightarrow> int \<times> int \<times> int \<times> bool \<times> instant option" where
  "getPurgeInfo w =
     (purge_single_execution_protection_delay w, purge_every_upserts_count w,
      upserts_since_purge_count w, purge_scheduled w, purge_last_date w)"

subsection \<open>Runs of the event loop\<close>

text \<open>
  What can happen next: a call of \<^verbatim>\<open>upsert\<close> (table, id, payload, expiresIn),
  the promise awaited by a suspended \<^verbatim>\<open>upsert\<close> settling, or the promise awaited
  by a suspended \<^verbatim>\<open>schedulePurge\<close> settling.
\<close>

datatype event =
    CallUpsert string string payload "int option"
  | ResumeUpsert nat
  | ResumeSweep nat

definition upsert_resume :: "nat \<Rightarrow> instant \<Rightarrow> world \<Rightarrow> world option" where
  "upsert_resume k now w =
     (if k < length (upsert_tasks w) then
        (case upsert_tasks w ! k of
           AwaitSelect table_name i props \<Rightarrow>
             Some (w\<lparr>upsert_tasks := (upsert_tasks w)
                       [k := upsert_selected table_name i props now (db w)]\<rparr>)
         | task \<Rightarrow>
             Some (w\<lparr>db := upsert_statement task now (db w),
                     upsert_tasks := remove_nth k (upsert_tasks w)\<rparr>))
      else None)"

fun step :: "(string \<Rightarrow> string) \<Rightarrow> instant \<Rightarrow> event \<Rightarrow> world \<Rightarrow> world option" where
  "step toSnakeCase now (CallUpsert table_name i payload expiresIn) w =
     (let (update_props, w1) = upsert_begin payload expiresIn now w
      in Some (w1\<lparr>upsert_tasks := upsert_tasks w1 @ [AwaitSelect table_name i update_props]\<rparr>))"
| "step toSnakeCase now (ResumeUpsert k) w = upsert_resume k now w"
| "step toSnakeCase now (ResumeSweep k) w = schedulePurge_resume toSnakeCase k now w"

text \<open>
  A run from the instant \<open>now\<close>: events with their instants, which never go back.
  \<open>None\<close>: some event could not happen in the state it met.
\<close>

fun run :: "(string \<Rightarrow> string) \<Rightarrow> instant \<Rightarrow> (instant \<times> event) list \<Rightarrow> world \<Rightarrow> world option" where
  "run toSnakeCase now [] w = Some w"
| "run toSnakeCase now ((t, e) # es) w =
     (if t < now then None
      else (case step toSnakeCase t e w of
              None \<Rightarrow> None
            | Some w' \<Rightarrow> run toSnakeCase t es w'))"

text \<open>The number of purges that \<^verbatim>\<open>schedulePurge\<close> has started, read off the log.\<close>

definition purges_started :: "world \<Rightarrow> nat" where
  "purges_started w = length (filter (\<lambda>m. m = ''Scheduling a new purge'') (debug_log w))"

text \<open>
  The next call of \<^verbatim>\<open>upsert\<close> starts a purge: its increment reaches the threshold
  and no purge is scheduled.
\<close>

definition starts_purge :: "world \<Rightarrow> bool" where
  "starts_purge w =
     (purge_every_upserts_count w \<le> upserts_since_purge_count w + 1 \<and> \<not> purge_scheduled w)"

text \<open>
  A call of \<^verbatim>\<open>upsert\<close> run to its end, from \<open>w\<close> to \<open>w'\<close>, in the order in which
  the source sends the statements: the deletions of the purge, if the call starts one
  (they are done at \<open>now_p\<close>), then the select (answered at \<open>now_s\<close>), then the write (done
  at \<open>now_w\<close>), and no other statement in between. The call and the purge it starts are
  the last of the suspended calls.
\<close>

definition upsert_ends ::
  "(string \<Rightarrow> string) \<Rightarrow> string \<Rightarrow> string \<Rightarrow> payload \<Rightarrow> int option \<Rightarrow>
     instant \<Rightarrow> instant \<Rightarrow> instant \<Rightarrow> instant \<Rightarrow> world \<Rightarrow> world \<Rightarrow> bool" where
  "upsert_ends toSnakeCase table_name i payload expiresIn now now_p now_s now_w w w' =
     (run toSnakeCase now
        ((now, CallUpsert table_name i payload expiresIn) #
         (if starts_purge w then [(now_p, ResumeSweep (length (sweep_tasks w)))] else []) @
         [(now_s, ResumeUpsert (length (upsert_tasks w))),
          (now_w, ResumeUpsert (length (upsert_tasks w)))]) w = Some w')"

subsection \<open>Predicates used in the statements\<close>

text \<open>
  The spec's word for the count in the statistics is the number of live rows: the rows of
  a table that a lookup at the instant \<open>now\<close> would still return.
\<close>

definition live_count :: "instant \<Rightarrow> row list \<Rightarrow> nat" where
  "live_count now rows = length (filter (not_expired now) rows)"

text \<open>
  The events that are calls of \<^verbatim>\<open>upsert\<close>, and their number in a run.
\<close>

fun is_call :: "event \<Rightarrow> bool" where
  "is_call (CallUpsert table_name i payload expiresIn) = True"
| "is_call (ResumeUpsert k) = False"
| "is_call (ResumeSweep k) = False"

definition calls :: "(instant \<times> event) list \<Rightarrow> nat" where
  "calls evs = length (filter (\<lambda>(t, e). is_call e) evs)"

text \<open>
  The scheduler's variables agree with the suspended calls of \<^verbatim>\<open>schedulePurge\<close>
  at the instant \<open>t\<close>, for the delay \<open>D\<close>: with \<^verbatim>\<open>purge_scheduled\<close> unset
  there is no such call; with it set there is exactly one, started at
  \<^verbatim>\<open>purge_last_date\<close>, and if its timer is already set, the timer is due no
  earlier than \<open>D\<close> after that start. Every event keeps the state so (\<open>step_inv\<close>
  below).
\<close>

fun sweep_consistent :: "int \<Rightarrow> instant \<Rightarrow> bool \<Rightarrow> instant option \<Rightarrow> sweep_task list \<Rightarrow> bool" where
  "sweep_consistent D t False lastd tasks = (tasks = [])"
| "sweep_consistent D t True (Some t1) [AwaitPurge bound] = (bound = t1 \<and> t1 \<le> t)"
| "sweep_consistent D t True (Some t1) [AwaitDelay due] = (t1 \<le> t \<and> t1 + D \<le> due)"
| "sweep_consistent D t True lastd tasks = False"

definition scheduler_inv :: "int \<Rightarrow> instant \<Rightarrow> world \<Rightarrow> bool" where
  "scheduler_inv D t w =
     (purge_single_execution_protection_delay w = D \<and>
      sweep_consistent D t (purge_scheduled w) (purge_last_date w) (sweep_tasks w))"

subsection \<open>Sample states\<close>

text \<open>
  A small database and the freshly loaded module over it; the results of
  \<^verbatim>\<open>to-snake-case\<close> on the type names; one value of
  \<^verbatim>\<open>toISOString\<close>.
\<close>

definition sample_db :: database where
  "sample_db = (\<lambda>_. [])
     (''oidc.session'' :=
        [\<lparr>row_id = ''s1'', data = [(''uid'', JStr ''u1'')], created_at = 100,
          updated_at = None, expires_at = Some 500\<rparr>,
         \<lparr>row_id = ''s2'', data = [(''uid'', JStr ''u2'')], created_at = 200,
          updated_at = None, expires_at = None\<rparr>],
      ''oidc.device_code'' :=
        [\<lparr>row_id = ''d1'', data = [(''userCode'', JStr ''c1'')], created_at = 300,
          updated_at = None, expires_at = Some 900\<rparr>])"

definition sample_world :: world where
  "sample_world = initial_world sample_db"

definition sample_toSnakeCase :: "string \<Rightarrow> string" where
  "sample_toSnakeCase name =
     (case map_of
        [(''Session'', ''session''), (''AccessToken'', ''access_token''),
         (''AuthorizationCode'', ''authorization_code''), (''RefreshToken'', ''refresh_token''),
         (''ClientCredentials'', ''client_credentials''),
         (''InitialAccessToken'', ''initial_access_token''),
         (''RegistrationAccessToken'', ''registration_access_token''),
         (''DeviceCode'', ''device_code''), (''Interaction'', ''interaction''),
         (''ReplayDetection'', ''replay_detection''),
         (''PushedAuthorizationRequest'', ''pushed_authorization_request''),
         (''Client'', ''client'')] name of
        None \<Rightarrow> name
      | Some s \<Rightarrow> s)"

text \<open>
  A user code with a double quote in it, \<^verbatim>\<open>a"b\<close>. The text made of it,
  \<^verbatim>\<open>{"userCode": "a"b"}\<close>, is no JSON, and the database refuses it;
  \<open>sample_jsonb\<close> is used on such texts only.
\<close>

definition sample_jsonb :: containment where
  "sample_jsonb text = None"

definition sample_quoted :: string where
  "sample_quoted = [CHR ''a'', CHR 0x22, CHR ''b'']"

definition sample_toISOString :: "instant \<Rightarrow> string" where
  "sample_toISOString t = ''1970-01-01T00:00:05.000Z''"

text \<open>
  The module set to purge every 5 upserts with a delay of 2000 ms, and 20 calls of
  \<^verbatim>\<open>upsert\<close> one millisecond apart; the state after them; the state once the
  purge's deletions have been done at the instant 30; two later calls.
\<close>

definition sample_configured :: world where
  "sample_configured = setPurgeProperties (Some 2000) (Some 5) sample_world"

definition sample_burst :: "(instant \<times> event) list" where
  "sample_burst = map (\<lambda>k. (int k, CallUpsert ''oidc.session'' ''s1'' [] (Some 60))) [0..<20]"

definition sample_sweeping :: world where
  "sample_sweeping = the (run sample_toSnakeCase 0 sample_burst sample_configured)"

definition sample_cooling :: world where
  "sample_cooling = the (run sample_toSnakeCase 20 [(30, ResumeSweep 0)] sample_sweeping)"

definition sample_more :: "(instant \<times> event) list" where
  "sample_more = [(40, CallUpsert ''oidc.session'' ''s2'' [] None),
                  (41, CallUpsert ''oidc.session'' ''s3'' [] (Some 60))]"

text \<open>
  The module set to purge at every upsert, and a short run that starts no purge.
\<close>

definition sample_eager :: world where
  "sample_eager = setPurgeProperties None (Some 1) sample_world"

definition sample_few :: "(instant \<times> event) list" where
  "sample_few = [(0, CallUpsert ''oidc.session'' ''s1'' [] (Some 60)),
                 (1, CallUpsert ''oidc.session'' ''s2'' [] None),
                 (1, ResumeUpsert 0),
                 (2, CallUpsert ''oidc.device_code'' ''d1'' [] (Some 0)),
                 (3, ResumeUpsert 0)]"

text \<open>
  The sample after a session has been stored for 60 seconds at the instant 1000; and, for the
  module that purges at every upsert, a call at the instant 1000 on the session
  \<^verbatim>\<open>s1\<close>, which expired at 500, with no \<^verbatim>\<open>expiresIn\<close>: the
  deletions of the purge it starts, then its select and its write.
\<close>

definition sample_stored :: world where
  "sample_stored =
     snd (upsert ''oidc.session'' ''s3'' [(''uid'', JStr ''u3'')] (Some 60) 1000 1001 1002
            sample_world)"


section \<open>Properties\<close>

subsection \<open>What an upsert writes\<close>

lemmas sample_simps = sample_world_def sample_db_def initial_world_def

lemmas sample_tables = StorageAdapter_def sample_toSnakeCase_def VOLATILE_TYPES_def

lemmas upsert_simps = upsert_def upsert_begin_def upsert_selected_def where_id_def
  update_where_id_def set_props_def insert_row_def schedulePurge_def Let_def

lemmas find_simps = find_op_def findByUid_def findByUserCode_def first_data_def
  not_expired_def data_contains_def

lemma db_schedulePurge: "db (schedulePurge now w) = db w"
  by (simp add: schedulePurge_def)

lemma db_upsert_begin: "db (snd (upsert_begin p e now w)) = db w"
  by (simp add: upsert_begin_def Let_def db_schedulePurge split: option.split)

lemma fst_upsert_begin:
  "fst (upsert_begin p e now w) =
     \<lparr>data_prop = p,
      expires_at_prop = (case e of None \<Rightarrow> None | Some t \<Rightarrow> if t \<noteq> 0 then Some (now + t * 1000) else None),
      updated_at_prop = None\<rparr>"
  by (simp add: upsert_begin_def Let_def split: option.split)

lemma upsert_table:
  "db (snd (upsert tn i p e now now_s now_w w)) tn =
     (let props = fst (upsert_begin p e now w) in
      if where_id i (db w tn) \<noteq> []
      then update_where_id i (props\<lparr>updated_at_prop := Some now_s\<rparr>) (db w tn)
      else insert_row now_w i props (db w tn))"
  by (simp add: upsert_def upsert_selected_def Let_def split_beta db_upsert_begin)




lemma row_id_set_props: "row_id (set_props props r) = row_id r"
  by (simp add: set_props_def)

lemma upsert_has_row:
  "\<exists>r\<in>set (db (snd (upsert tn i p e now now_s now_w w)) tn). row_id r = i"
proof (cases "where_id i (db w tn) = []")
  case True
  then show ?thesis by (simp add: upsert_table insert_row_def Let_def)
next
  case False
  then obtain r where r: "r \<in> set (db w tn)" "row_id r = i"
    by (auto simp: where_id_def filter_empty_conv)
  let ?props = "(fst (upsert_begin p e now w))\<lparr>updated_at_prop := Some now_s\<rparr>"
  have "set_props ?props r \<in> set (update_where_id i ?props (db w tn))"
    using r by (force simp: update_where_id_def)
  then show ?thesis using False r(2)
    by (auto simp: upsert_table Let_def row_id_set_props intro!: bexI [of _ "set_props ?props r"])
qed

text \<open>
  A row of the table after an upsert is the inserted row, a row of the given id rewritten
  by the update, or an untouched row of another id.
\<close>

lemma upsert_row_cases:
  assumes "r \<in> set (db (snd (upsert tn i p e now now_s now_w w)) tn)"
  obtains
    (inserted) "where_id i (db w tn) = []"
       "r = \<lparr>row_id = i, data = p, created_at = now_w, updated_at = None,
              expires_at = expires_at_prop (fst (upsert_begin p e now w))\<rparr>"
  | (updated) x where "x \<in> set (db w tn)" "row_id x = i"
       "r = set_props ((fst (upsert_begin p e now w))\<lparr>updated_at_prop := Some now_s\<rparr>) x"
  | (other) "r \<in> set (db w tn)" "row_id r \<noteq> i"
proof (cases "where_id i (db w tn) = []")
  case True
  with assms have "r \<in> set (db w tn) \<or>
      r = \<lparr>row_id = i, data = p, created_at = now_w, updated_at = None,
              expires_at = expires_at_prop (fst (upsert_begin p e now w))\<rparr>"
    by (auto simp: upsert_table Let_def insert_row_def fst_upsert_begin)
  moreover have "x \<in> set (db w tn) \<Longrightarrow> row_id x \<noteq> i" for x
    using True by (simp add: where_id_def filter_empty_conv)
  ultimately show ?thesis using that True by blast
next
  case False
  with assms obtain x where x: "x \<in> set (db w tn)"
      "r = (if row_id x = i
            then set_props ((fst (upsert_begin p e now w))\<lparr>updated_at_prop := Some now_s\<rparr>) x
            else x)"
    by (auto simp: upsert_table Let_def update_where_id_def)
  show ?thesis
  proof (cases "row_id x = i")
    case True
    with x show ?thesis using that(2) by simp
  next
    case False
    with x show ?thesis using that(3) by simp
  qed
qed

lemma upsert_row_written:
  assumes "r \<in> set (db (snd (upsert tn i p e now now_s now_w w)) tn)" "row_id r = i"
  shows "data r = p"
    and "\<And>t. e = Some t \<Longrightarrow> t \<noteq> 0 \<Longrightarrow> expires_at r = Some (now + t * 1000)"
  using assms(1)
proof (atomize (full), cases rule: upsert_row_cases)
  case inserted
  then show "data r = p \<and> (\<forall>t. e = Some t \<longrightarrow> t \<noteq> 0 \<longrightarrow> expires_at r = Some (now + t * 1000))"
    by (simp add: fst_upsert_begin)
next
  case (updated x)
  then show "data r = p \<and> (\<forall>t. e = Some t \<longrightarrow> t \<noteq> 0 \<longrightarrow> expires_at r = Some (now + t * 1000))"
    by (simp add: fst_upsert_begin set_props_def)
next
  case other
  with assms(2) show "data r = p \<and> (\<forall>t. e = Some t \<longrightarrow> t \<noteq> 0 \<longrightarrow> expires_at r = Some (now + t * 1000))"
    by simp
qed

lemma upsert_other_rows:
  assumes "r \<in> set (db (snd (upsert tn i p e now now_s now_w w)) tn)" "row_id r \<noteq> i"
  shows "r \<in> set (db w tn)"
  using assms(1)
proof (cases rule: upsert_row_cases)
  case inserted
  with assms(2) show ?thesis by simp
next
  case (updated x)
  with assms(2) show ?thesis by (simp add: row_id_set_props)
next
  case other
  then show ?thesis by simp
qed


text \<open>
  The update of an existing id stamps \<^verbatim>\<open>updated_at\<close> with the instant read after
  the select; an inserted row has none.
\<close>

lemma upsert_updated_at:
  assumes "r \<in> set (db (snd (upsert tn i p e now now_s now_w w)) tn)" "row_id r = i"
  shows "updated_at r = (if where_id i (db w tn) = [] then None else Some now_s)"
  using assms(1)
proof (cases rule: upsert_row_cases)
  case inserted
  then show ?thesis by simp
next
  case (updated x)
  then have "where_id i (db w tn) \<noteq> []"
    by (auto simp: where_id_def filter_empty_conv)
  with updated show ?thesis by (simp add: set_props_def)
next
  case other
  with assms(2) show ?thesis by simp
qed

subsection \<open>What a lookup returns\<close>

lemma first_data_filter:
  "(\<forall>r\<in>set rows. Q r \<longrightarrow> data r = p) \<Longrightarrow>
   first_data (filter Q rows) = (if \<exists>r\<in>set rows. Q r then Some p else None)"
  by (induction rows) (auto simp: first_data_def)

lemma first_data_none:
  "(\<forall>r\<in>set rows. \<not> Q r) \<Longrightarrow> first_data (filter Q rows) = None"
  by (induction rows) (auto simp: first_data_def)

lemma find_after_upsert:
  assumes "t \<noteq> 0"
  shows "fst (find_op tn i now_f (snd (upsert tn i p (Some t) now now_s now_w w))) =
           Inr (if now_f < now + t * 1000 then Some p else None)"
proof -
  let ?T = "db (snd (upsert tn i p (Some t) now now_s now_w w)) tn"
  let ?Q = "\<lambda>r. row_id r = i \<and> not_expired now_f r"
  have d: "\<forall>r\<in>set ?T. ?Q r \<longrightarrow> data r = p"
    using upsert_row_written(1) by blast
  have e: "\<forall>r\<in>set ?T. row_id r = i \<longrightarrow> not_expired now_f r = (now_f < now + t * 1000)"
    using upsert_row_written(2) [OF _ _ refl assms] by (simp add: not_expired_def)
  have "(\<exists>r\<in>set ?T. ?Q r) = (now_f < now + t * 1000)"
    using e upsert_has_row [of tn i p "Some t" now now_s now_w w] by blast
  then show ?thesis
    by (simp add: find_op_def first_data_filter [OF d])
qed

text \<open>
  For a value that JSON writes as it is, the lookups by a property are fulfilled, with the
  data of the first row that carries the value and has not expired.
\<close>

lemma where_data_plain: "json_plain v \<Longrightarrow> where_data J k v = Some (data_contains k v)"
  by (simp add: where_data_def)

lemma findByUid_plain:
  "json_plain uid \<Longrightarrow>
     fst (findByUid J tn uid now w) =
       Inr (first_data (filter (\<lambda>r. data_contains ''uid'' uid r \<and> not_expired now r) (db w tn)))"
  by (simp add: findByUid_def where_data_plain)

lemma findByUserCode_plain:
  "json_plain userCode \<Longrightarrow>
     fst (findByUserCode J tn userCode now w) =
       Inr (first_data
              (filter (\<lambda>r. data_contains ''userCode'' userCode r \<and> not_expired now r) (db w tn)))"
  by (simp add: findByUserCode_def where_data_plain)

lemma first_data_some:
  assumes "r0 \<in> set rows" "Q r0"
  shows "\<exists>r\<in>set rows. Q r \<and> first_data (filter Q rows) = Some (data r)"
proof -
  from assms have "filter Q rows \<noteq> []"
    by (auto simp: filter_empty_conv)
  then obtain r rs where f: "filter Q rows = r # rs"
    by (cases "filter Q rows") auto
  then have "r \<in> set (filter Q rows)" by simp
  then have "r \<in> set rows" "Q r" by simp_all
  with f show ?thesis by (auto simp: first_data_def)
qed

lemma filter_hidden:
  "\<forall>r\<in>set rows. row_id r = i \<longrightarrow> \<not> Q r \<Longrightarrow>
     filter Q (filter (\<lambda>r. row_id r \<noteq> i) rows) = filter Q rows"
  by (induction rows) auto

lemma db_destroy: "db (snd (destroy tn i w)) tn = filter (\<lambda>r. row_id r \<noteq> i) (db w tn)"
  by (simp add: destroy_def)

subsection \<open>The instant of the last update\<close>

text \<open>
  Claim C7 does not hold for \<^verbatim>\<open>consume\<close>. Its update is
  \<^verbatim>\<open>.update({data})\<close>: on the sample, consuming the session \<^verbatim>\<open>s1\<close>
  at the instant 5000 succeeds and writes the \<^verbatim>\<open>consumed\<close> property, and
  \<^verbatim>\<open>updated_at\<close> of the row is still unset. The update branch of
  \<^verbatim>\<open>upsert\<close> does set \<^verbatim>\<open>updated_at\<close> (\<open>upsert_updated_at\<close>
  above).
\<close>

theorem consume_leaves_updated_at:
  "fst (consume sample_toISOString ''oidc.session'' ''s1'' 5000 sample_world) = Inr () \<and>
   map data (db (snd (consume sample_toISOString ''oidc.session'' ''s1'' 5000 sample_world)) ''oidc.session'') =
     [[(''uid'', JStr ''u1''), (''consumed'', JStr ''1970-01-01T00:00:05.000Z'')], [(''uid'', JStr ''u2'')]] \<and>
   map updated_at (db (snd (consume sample_toISOString ''oidc.session'' ''s1'' 5000 sample_world)) ''oidc.session'') =
     [None, None]"
  by (simp add: consume_def where_id_def update_where_id_def set_props_def sample_simps
        sample_toISOString_def)

subsection \<open>Lookups and changes of a record that is not there\<close>

text \<open>
  When no row answers: \<^verbatim>\<open>consume\<close> is rejected with a
  \<^verbatim>\<open>TypeError\<close>; \<^verbatim>\<open>find\<close> is fulfilled with
  \<^verbatim>\<open>null\<close>, and so are \<^verbatim>\<open>findByUid\<close> and
  \<^verbatim>\<open>findByUserCode\<close> for a value that JSON writes as it is.
\<close>

lemma absent_record:
  "where_id i (db w tn) = [] \<Longrightarrow> consume toISOString tn i now w = (Inl TypeError, w)"
  "\<forall>r\<in>set (db w tn). \<not> (row_id r = i \<and> not_expired now r) \<Longrightarrow>
     find_op tn i now w = (Inr None, w)"
  "json_plain uid \<Longrightarrow>
     \<forall>r\<in>set (db w tn). \<not> (data_contains ''uid'' uid r \<and> not_expired now r) \<Longrightarrow>
     findByUid jsonb tn uid now w = (Inr None, w)"
  "json_plain userCode \<Longrightarrow>
     \<forall>r\<in>set (db w tn). \<not> (data_contains ''userCode'' userCode r \<and> not_expired now r) \<Longrightarrow>
     findByUserCode jsonb tn userCode now w = (Inr None, w)"
  by (simp_all add: consume_def find_op_def findByUid_def findByUserCode_def where_data_plain
        first_data_def)

text \<open>
  Claim C6 does not hold for \<^verbatim>\<open>findByUserCode\<close> and
  \<^verbatim>\<open>findByUid\<close>. They paste the value into the text of a JSON object with
  no escaping, where \<^verbatim>\<open>find\<close> hands its \<^verbatim>\<open>id\<close> to knex as a
  value. With the user code \<^verbatim>\<open>a"b\<close>, which no device code of the sample
  carries, the text is \<^verbatim>\<open>{"userCode": "a"b"}\<close>: the database refuses it and
  the promise is rejected, where the claim wants \<^verbatim>\<open>null\<close>. The same holds of
  \<^verbatim>\<open>findByUid\<close> on the sessions, and \<^verbatim>\<open>find\<close> with that
  string as the id is fulfilled with \<^verbatim>\<open>null\<close>.
\<close>

theorem lookup_rejects_quoted_value:
  "fst (findByUserCode sample_jsonb ''oidc.device_code'' sample_quoted 5000 sample_world) =
     Inl DatabaseError \<and>
   fst (findByUid sample_jsonb ''oidc.session'' sample_quoted 5000 sample_world) =
     Inl DatabaseError \<and>
   filter (data_contains ''userCode'' sample_quoted) (db sample_world ''oidc.device_code'') = [] \<and>
   filter (data_contains ''uid'' sample_quoted) (db sample_world ''oidc.session'') = [] \<and>
   fst (find_op ''oidc.session'' sample_quoted 5000 sample_world) = Inr None"
  by (simp add: findByUserCode_def findByUid_def where_data_def json_plain_def sample_quoted_def
        sample_jsonb_def find_op_def first_data_def data_contains_def sample_simps)


subsection \<open>The purge\<close>

lemma fold_update_tables:
  assumes "\<And>x. g (g x) = g x"
  shows "fold (\<lambda>n d'. d'(f n := g (d' (f n)))) ns d tn =
           (if tn \<in> f ` set ns then g (d tn) else d tn)"
proof (induction ns arbitrary: d)
  case Nil
  then show ?case by simp
next
  case (Cons n ns)
  let ?d = "d(f n := g (d (f n)))"
  have "fold (\<lambda>n d'. d'(f n := g (d' (f n)))) (n # ns) d tn =
        (if tn \<in> f ` set ns then g (?d tn) else ?d tn)"
    by (simp only: fold_simps comp_apply Cons.IH)
  also have "\<dots> = (if tn \<in> f ` set (n # ns) then g (d tn) else d tn)"
    by (simp add: assms)
  finally show ?case .
qed

lemma purge_deletes_table:
  "purge_deletes S now d tn =
     (if tn \<in> StorageAdapter S ` set VOLATILE_TYPES then del_expired now (d tn) else d tn)"
  unfolding purge_deletes_def
  by (rule fold_update_tables) (simp add: del_expired_def)

lemma del_expired_alt:
  "del_expired now rows = filter (\<lambda>r. \<forall>e. expires_at r = Some e \<longrightarrow> now < e) rows"
  unfolding del_expired_def expired_at_def
  by (rule filter_cong) (auto split: option.splits)

text \<open>
  Claim C2. After \<^verbatim>\<open>purge\<close> with the instant \<open>now\<close>, the table of every
  volatile type holds exactly its former rows whose \<^verbatim>\<open>expires_at\<close> is unset or
  after \<open>now\<close>, in their order: no row that expired at or before \<open>now\<close> is left, every
  row that expires after \<open>now\<close> is still there, and in no table at all has a row without
  \<^verbatim>\<open>expires_at\<close> been deleted.
\<close>

theorem purge_removes_expired:
  "(\<forall>name\<in>set VOLATILE_TYPES.
      db (snd (purge S now w)) (StorageAdapter S name) =
        filter (\<lambda>r. \<forall>e. expires_at r = Some e \<longrightarrow> now < e) (db w (StorageAdapter S name)) \<and>
      (\<forall>r\<in>set (db (snd (purge S now w)) (StorageAdapter S name)).
          \<forall>e. expires_at r = Some e \<longrightarrow> \<not> e \<le> now) \<and>
      (\<forall>r\<in>set (db w (StorageAdapter S name)).
          \<forall>e. expires_at r = Some e \<longrightarrow> now < e \<longrightarrow>
              r \<in> set (db (snd (purge S now w)) (StorageAdapter S name)))) \<and>
   (\<forall>tn. \<forall>r\<in>set (db w tn). expires_at r = None \<longrightarrow> r \<in> set (db (snd (purge S now w)) tn)) \<and>
   fst (purge S now w) = Inr ()"
proof -
  have v: "db (snd (purge S now w)) (StorageAdapter S name) =
        filter (\<lambda>r. \<forall>e. expires_at r = Some e \<longrightarrow> now < e) (db w (StorageAdapter S name))"
    if "name \<in> set VOLATILE_TYPES" for name
    using that by (simp add: purge_def purge_deletes_table del_expired_alt)
  have n: "r \<in> set (db (snd (purge S now w)) tn)" if "r \<in> set (db w tn)" "expires_at r = None" for r tn
    using that by (simp add: purge_def purge_deletes_table del_expired_alt)
  have r: "fst (purge S now w) = Inr ()"
    by (simp add: purge_def)
  show ?thesis
    using n r by (auto simp: v)
qed

text \<open>
  The theorem at the sample, purged at the instant 500: the session that expires at 500 is
  gone, the one that never expires and the device code that expires at 900 are kept.
\<close>

theorem purge_removes_expired_witness:
  "''Session'' \<in> set VOLATILE_TYPES \<and>
   db (snd (purge sample_toSnakeCase 500 sample_world)) ''oidc.session'' =
     [\<lparr>row_id = ''s2'', data = [(''uid'', JStr ''u2'')], created_at = 200,
          updated_at = None, expires_at = None\<rparr>] \<and>
   ''DeviceCode'' \<in> set VOLATILE_TYPES \<and>
   db (snd (purge sample_toSnakeCase 500 sample_world)) ''oidc.device_code'' =
     [\<lparr>row_id = ''d1'', data = [(''userCode'', JStr ''c1'')], created_at = 300,
          updated_at = None, expires_at = Some 900\<rparr>] \<and>
   \<lparr>row_id = ''d1'', data = [(''userCode'', JStr ''c1'')], created_at = 300,
          updated_at = None, expires_at = Some 900\<rparr> \<in> set (db sample_world ''oidc.device_code'') \<and>
   (500::int) < 900 \<and>
   \<lparr>row_id = ''d1'', data = [(''userCode'', JStr ''c1'')], created_at = 300,
          updated_at = None, expires_at = Some 900\<rparr>
     \<in> set (db (snd (purge sample_toSnakeCase 500 sample_world)) ''oidc.device_code'') \<and>
   \<lparr>row_id = ''s2'', data = [(''uid'', JStr ''u2'')], created_at = 200,
          updated_at = None, expires_at = None\<rparr> \<in> set (db sample_world ''oidc.session'') \<and>
   \<lparr>row_id = ''s2'', data = [(''uid'', JStr ''u2'')], created_at = 200,
          updated_at = None, expires_at = None\<rparr>
     \<in> set (db (snd (purge sample_toSnakeCase 500 sample_world)) ''oidc.session'')"
proof -
  have s: "''Session'' \<in> set VOLATILE_TYPES" and d: "''DeviceCode'' \<in> set VOLATILE_TYPES"
    by (simp_all add: VOLATILE_TYPES_def)
  have ts: "StorageAdapter sample_toSnakeCase ''Session'' = ''oidc.session''"
    and td: "StorageAdapter sample_toSnakeCase ''DeviceCode'' = ''oidc.device_code''"
    by (simp_all add: StorageAdapter_def sample_toSnakeCase_def)
  note p = purge_removes_expired [of sample_toSnakeCase 500 sample_world, THEN conjunct1]
  have "db (snd (purge sample_toSnakeCase 500 sample_world)) ''oidc.session'' =
     [\<lparr>row_id = ''s2'', data = [(''uid'', JStr ''u2'')], created_at = 200,
          updated_at = None, expires_at = None\<rparr>]"
    "db (snd (purge sample_toSnakeCase 500 sample_world)) ''oidc.device_code'' =
     [\<lparr>row_id = ''d1'', data = [(''userCode'', JStr ''c1'')], created_at = 300,
          updated_at = None, expires_at = Some 900\<rparr>]"
    using p [THEN bspec, OF s, THEN conjunct1] p [THEN bspec, OF d, THEN conjunct1]
    by (simp_all add: ts td sample_simps)
  then show ?thesis
    using s d by (simp add: sample_simps)
qed

subsection \<open>The statistics\<close>

lemma sql_min_Min: "sql_min xs = (if xs = [] then None else Some (Min (set xs)))"
proof (cases xs)
  case Nil
  then show ?thesis by simp
next
  case (Cons x ys)
  have "fold min ys x = Min (set (x # ys))"
    by (simp only: Min.set_eq_fold)
  with Cons show ?thesis by simp
qed

lemma sql_max_Max: "sql_max xs = (if xs = [] then None else Some (Max (set xs)))"
proof (cases xs)
  case Nil
  then show ?thesis by simp
next
  case (Cons x ys)
  have "fold max ys x = Max (set (x # ys))"
    by (simp only: Max.set_eq_fold)
  with Cons show ?thesis by simp
qed

text \<open>
  Claim C9, as amended. \<^verbatim>\<open>getVolatileRecordsStats\<close> changes nothing and returns
  one entry per volatile type, in the order of \<^verbatim>\<open>VOLATILE_TYPES\<close>: the type's
  name, the number of all rows of its table, expired or not, and the least and the
  greatest \<^verbatim>\<open>created_at\<close> of those rows (\<^verbatim>\<open>null\<close> for an empty
  table).
\<close>

theorem stats_count_all_rows:
  "snd (getVolatileRecordsStats S w) = w \<and>
   (\<exists>sts. fst (getVolatileRecordsStats S w) = Inr sts \<and>
      length sts = length VOLATILE_TYPES \<and>
      (\<forall>k<length VOLATILE_TYPES.
         type_name (sts ! k) = VOLATILE_TYPES ! k \<and>
         count (sts ! k) = length (db w (StorageAdapter S (VOLATILE_TYPES ! k))) \<and>
         date_min (sts ! k) =
           (if db w (StorageAdapter S (VOLATILE_TYPES ! k)) = [] then None
            else Some (Min (created_at ` set (db w (StorageAdapter S (VOLATILE_TYPES ! k)))))) \<and>
         date_max (sts ! k) =
           (if db w (StorageAdapter S (VOLATILE_TYPES ! k)) = [] then None
            else Some (Max (created_at ` set (db w (StorageAdapter S (VOLATILE_TYPES ! k))))))))"
  by (simp add: getVolatileRecordsStats_def Let_def sql_min_Min sql_max_Max)

text \<open>
  The theorem at the sample: two sessions, created at 100 and at 200.
\<close>

theorem stats_count_all_rows_witness:
  "(0::nat) < length VOLATILE_TYPES \<and>
   type_name (projr (fst (getVolatileRecordsStats sample_toSnakeCase sample_world)) ! 0) = ''Session'' \<and>
   count (projr (fst (getVolatileRecordsStats sample_toSnakeCase sample_world)) ! 0) = 2 \<and>
   date_min (projr (fst (getVolatileRecordsStats sample_toSnakeCase sample_world)) ! 0) = Some 100 \<and>
   date_max (projr (fst (getVolatileRecordsStats sample_toSnakeCase sample_world)) ! 0) = Some 200"
proof -
  have k: "(0::nat) < length VOLATILE_TYPES" and n: "VOLATILE_TYPES ! 0 = ''Session''"
    by (simp_all add: VOLATILE_TYPES_def)
  have ts: "StorageAdapter sample_toSnakeCase ''Session'' = ''oidc.session''"
    by (simp add: StorageAdapter_def sample_toSnakeCase_def)
  from stats_count_all_rows [of sample_toSnakeCase sample_world]
  obtain sts where sts: "fst (getVolatileRecordsStats sample_toSnakeCase sample_world) = Inr sts"
    and *: "\<forall>k<length VOLATILE_TYPES.
         type_name (sts ! k) = VOLATILE_TYPES ! k \<and>
         count (sts ! k) = length (db sample_world (StorageAdapter sample_toSnakeCase (VOLATILE_TYPES ! k))) \<and>
         date_min (sts ! k) =
           (if db sample_world (StorageAdapter sample_toSnakeCase (VOLATILE_TYPES ! k)) = [] then None
            else Some (Min (created_at ` set (db sample_world (StorageAdapter sample_toSnakeCase (VOLATILE_TYPES ! k)))))) \<and>
         date_max (sts ! k) =
           (if db sample_world (StorageAdapter sample_toSnakeCase (VOLATILE_TYPES ! k)) = [] then None
            else Some (Max (created_at ` set (db sample_world (StorageAdapter sample_toSnakeCase (VOLATILE_TYPES ! k))))))"
    by blast
  have "type_name (sts ! 0) = ''Session'' \<and> count (sts ! 0) = 2 \<and>
        date_min (sts ! 0) = Some 100 \<and> date_max (sts ! 0) = Some 200"
    using * [rule_format, OF k] by (simp add: n ts sample_simps)
  with k show ?thesis
    by (simp add: sts)
qed

text \<open>
  Claim C9 as stated fails: at the instant 1000 one of the two sessions of the sample has
  expired, so one row is live, and the count returned is 2.
\<close>

theorem stats_count_expired_rows:
  "count (projr (fst (getVolatileRecordsStats sample_toSnakeCase sample_world)) ! 0) \<noteq>
   live_count 1000 (db sample_world (StorageAdapter sample_toSnakeCase (VOLATILE_TYPES ! 0)))"
  by (simp add: getVolatileRecordsStats_def Let_def sample_tables sample_simps live_count_def
      not_expired_def)

subsection \<open>Steps of the scheduler\<close>

lemma sweep_consistent_True:
  "sweep_consistent D t True lastd tasks =
     (\<exists>t1. lastd = Some t1 \<and> t1 \<le> t \<and>
        (tasks = [AwaitPurge t1] \<or> (\<exists>due. tasks = [AwaitDelay due] \<and> t1 + D \<le> due)))"
  by (induction D t True lastd tasks rule: sweep_consistent.induct) auto

lemma scheduler_inv_iff:
  "scheduler_inv D t w =
     (purge_single_execution_protection_delay w = D \<and>
      (if purge_scheduled w
       then \<exists>t1. purge_last_date w = Some t1 \<and> t1 \<le> t \<and>
              (sweep_tasks w = [AwaitPurge t1] \<or>
               (\<exists>due. sweep_tasks w = [AwaitDelay due] \<and> t1 + D \<le> due))
       else sweep_tasks w = []))"
  by (cases "purge_scheduled w") (simp_all add: scheduler_inv_def sweep_consistent_True)

text \<open>
  The freshly loaded module is in such a state, and setting the purge properties while no
  purge is scheduled keeps it so.
\<close>

lemma initial_world_inv: "scheduler_inv 2000 t (initial_world d)"
  by (simp add: scheduler_inv_def initial_world_def)

lemma setPurgeProperties_inv:
  assumes "scheduler_inv D t w" "\<not> purge_scheduled w"
  shows "scheduler_inv (purge_single_execution_protection_delay
            (setPurgeProperties delay_prop count_prop w)) t
           (setPurgeProperties delay_prop count_prop w)"
  using assms
  by (auto simp: scheduler_inv_iff setPurgeProperties_def Let_def split: option.splits)

lemma upsert_begin_sched:
  "snd (upsert_begin p e now w) =
     (if purge_every_upserts_count w \<le> upserts_since_purge_count w + 1
      then schedulePurge now (w\<lparr>upserts_since_purge_count := upserts_since_purge_count w + 1\<rparr>)
      else w\<lparr>upserts_since_purge_count := upserts_since_purge_count w + 1\<rparr>)"
  by (simp add: upsert_begin_def Let_def split: option.split)

text \<open>
  The start of an upsert either starts a purge, or finds one scheduled, or is below the
  threshold.
\<close>

lemma upsert_begin_cases:
  obtains
    (started) "\<not> purge_scheduled w"
      "purge_every_upserts_count w \<le> upserts_since_purge_count w + 1"
      "snd (upsert_begin p e now w) =
         w\<lparr>upserts_since_purge_count := 0, purge_scheduled := True,
           debug_log := debug_log w @ [''Scheduling a new purge''],
           purge_last_date := Some now, sweep_tasks := sweep_tasks w @ [AwaitPurge now]\<rparr>"
  | (ignored) "purge_scheduled w"
      "purge_every_upserts_count w \<le> upserts_since_purge_count w + 1"
      "snd (upsert_begin p e now w) =
         w\<lparr>upserts_since_purge_count := upserts_since_purge_count w + 1,
           debug_log := debug_log w @ [''A purge is already scheduled'']\<rparr>"
  | (below) "\<not> purge_every_upserts_count w \<le> upserts_since_purge_count w + 1"
      "snd (upsert_begin p e now w) =
         w\<lparr>upserts_since_purge_count := upserts_since_purge_count w + 1\<rparr>"
proof (cases "purge_every_upserts_count w \<le> upserts_since_purge_count w + 1")
  case False
  then show ?thesis using below by (simp add: upsert_begin_sched)
next
  case True
  show ?thesis
  proof (cases "purge_scheduled w")
    case True
    with \<open>purge_every_upserts_count w \<le> upserts_since_purge_count w + 1\<close> show ?thesis
      using ignored by (simp add: upsert_begin_sched schedulePurge_def)
  next
    case False
    with \<open>purge_every_upserts_count w \<le> upserts_since_purge_count w + 1\<close> show ?thesis
      using started by (simp add: upsert_begin_sched schedulePurge_def)
  qed
qed

text \<open>
  What an event does to the scheduler: it starts a purge, or the deletions of a purge are
  done and its timer is set, or a timer that is due fires, or nothing of the scheduler
  changes but the counter and the log.
\<close>

lemma step_cases:
  assumes "step S t' e w = Some w'"
  obtains
    (started) "\<not> purge_scheduled w" "purge_scheduled w'" "purge_last_date w' = Some t'"
      "sweep_tasks w' = sweep_tasks w @ [AwaitPurge t']"
      "purges_started w' = Suc (purges_started w)"
      "purge_single_execution_protection_delay w' = purge_single_execution_protection_delay w"
  | (settled) k bound where "k < length (sweep_tasks w)" "sweep_tasks w ! k = AwaitPurge bound"
      "sweep_tasks w' = (sweep_tasks w)[k := AwaitDelay (t' + purge_single_execution_protection_delay w)]"
      "purge_scheduled w' = purge_scheduled w" "purge_last_date w' = purge_last_date w"
      "purges_started w' = purges_started w"
      "purge_single_execution_protection_delay w' = purge_single_execution_protection_delay w"
  | (elapsed) k due where "k < length (sweep_tasks w)" "sweep_tasks w ! k = AwaitDelay due"
      "due \<le> t'" "sweep_tasks w' = remove_nth k (sweep_tasks w)"
      "\<not> purge_scheduled w'" "purge_last_date w' = purge_last_date w"
      "purges_started w' = purges_started w"
      "purge_single_execution_protection_delay w' = purge_single_execution_protection_delay w"
  | (quiet) "sweep_tasks w' = sweep_tasks w"
      "purge_scheduled w' = purge_scheduled w" "purge_last_date w' = purge_last_date w"
      "purges_started w' = purges_started w"
      "purge_single_execution_protection_delay w' = purge_single_execution_protection_delay w"
proof (cases e)
  case (CallUpsert tn i p x)
  with assms have w': "w' = (snd (upsert_begin p x t' w))
        \<lparr>upsert_tasks := upsert_tasks (snd (upsert_begin p x t' w)) @
            [AwaitSelect tn i (fst (upsert_begin p x t' w))]\<rparr>"
    by (simp add: split_beta)
  show ?thesis
  proof (cases rule: upsert_begin_cases [of w p x t'])
    case started
    then show ?thesis using w' that(1) by (simp add: purges_started_def)
  next
    case ignored
    then show ?thesis using w' that(4) by (simp add: purges_started_def)
  next
    case below
    then show ?thesis using w' that(4) by (simp add: purges_started_def)
  qed
next
  case (ResumeUpsert k)
  with assms show ?thesis using that(4)
    by (auto simp: upsert_resume_def purges_started_def split: if_splits upsert_task.splits)
next
  case (ResumeSweep k)
  with assms have k: "k < length (sweep_tasks w)"
    by (simp add: schedulePurge_resume_def split: if_splits)
  show ?thesis
  proof (cases "sweep_tasks w ! k")
    case (AwaitPurge bound)
    with assms ResumeSweep k show ?thesis using that(2) [of k bound]
      by (auto simp: schedulePurge_resume_def purges_started_def)
  next
    case (AwaitDelay due)
    with assms ResumeSweep k show ?thesis using that(3) [of k due]
      by (auto simp: schedulePurge_resume_def purges_started_def split: if_splits)
  qed
qed

lemma step_inv:
  assumes "scheduler_inv D t w" "t \<le> t'" "step S t' e w = Some w'"
  shows "scheduler_inv D t' w'"
  using assms(3)
proof (cases rule: step_cases)
  case started
  with assms(1,2) show ?thesis by (simp add: scheduler_inv_iff)
next
  case (settled k bound)
  with assms(1,2) show ?thesis by (auto simp: scheduler_inv_iff split: if_splits)
next
  case (elapsed k due)
  with assms(1,2) show ?thesis by (auto simp: scheduler_inv_iff remove_nth_def split: if_splits)
next
  case quiet
  with assms(1,2) show ?thesis by (auto simp: scheduler_inv_iff split: if_splits)
qed

lemma run_inv:
  assumes "scheduler_inv D t w" "run S t evs w = Some w'"
  shows "scheduler_inv D (last (t # map fst evs)) w'"
  using assms
proof (induction evs arbitrary: t w)
  case Nil
  then show ?case by simp
next
  case (Cons ev evs)
  obtain t' e where ev: "ev = (t', e)" by (cases ev)
  from Cons.prems(2) ev obtain w1 where le: "t \<le> t'" and st: "step S t' e w = Some w1"
    and rn: "run S t' evs w1 = Some w'"
    by (auto split: if_splits option.splits)
  from Cons.IH [OF step_inv [OF Cons.prems(1) le st] rn] ev show ?case by simp
qed

lemma step_while_scheduled:
  assumes "scheduler_inv D t w" "purge_scheduled w" "purge_last_date w = Some t1"
    and "t \<le> t'" "t' < t1 + D" "step S t' e w = Some w'"
  shows "purge_scheduled w' \<and> purge_last_date w' = Some t1 \<and>
         purges_started w' = purges_started w"
  using assms(6)
proof (cases rule: step_cases)
  case started
  with assms(2) show ?thesis by simp
next
  case (settled k bound)
  with assms(2,3) show ?thesis by simp
next
  case (elapsed k due)
  with assms(1,2,3,5) show ?thesis by (auto simp: scheduler_inv_iff)
next
  case quiet
  with assms(2,3) show ?thesis by simp
qed

lemma run_while_scheduled:
  assumes "scheduler_inv D t w" "purge_scheduled w" "purge_last_date w = Some t1"
    and "run S t evs w = Some w'" "\<forall>(t', e)\<in>set evs. t' < t1 + D"
  shows "purge_scheduled w' \<and> purge_last_date w' = Some t1 \<and>
         purges_started w' = purges_started w"
  using assms
proof (induction evs arbitrary: t w)
  case Nil
  then show ?case by simp
next
  case (Cons ev evs)
  obtain t' e where ev: "ev = (t', e)" by (cases ev)
  from Cons.prems(4) ev obtain w1 where le: "t \<le> t'" and st: "step S t' e w = Some w1"
    and rn: "run S t' evs w1 = Some w'"
    by (auto split: if_splits option.splits)
  from Cons.prems(5) ev have lt: "t' < t1 + D" and rest: "\<forall>(t', e)\<in>set evs. t' < t1 + D"
    by auto
  have inv1: "scheduler_inv D t' w1"
    using step_inv [OF Cons.prems(1) le st] .
  have keep: "purge_scheduled w1 \<and> purge_last_date w1 = Some t1 \<and>
         purges_started w1 = purges_started w"
    using step_while_scheduled [OF Cons.prems(1,2,3) le lt st] .
  from Cons.IH [OF inv1 _ _ rn rest] keep show ?case by simp
qed

lemma run_burst:
  assumes "scheduler_inv D t w" "run S t evs w = Some w'"
    and "t0 \<le> t" "\<forall>(t', e)\<in>set evs. t' < t0 + D"
  shows "purges_started w' \<le> Suc (purges_started w)"
  using assms
proof (induction evs arbitrary: t w)
  case Nil
  then show ?case by simp
next
  case (Cons ev evs)
  obtain t' e where ev: "ev = (t', e)" by (cases ev)
  from Cons.prems(2) ev obtain w1 where le: "t \<le> t'" and st: "step S t' e w = Some w1"
    and rn: "run S t' evs w1 = Some w'"
    by (auto split: if_splits option.splits)
  from Cons.prems(4) ev have rest: "\<forall>(t', e)\<in>set evs. t' < t0 + D"
    by auto
  have inv1: "scheduler_inv D t' w1"
    using step_inv [OF Cons.prems(1) le st] .
  have t0: "t0 \<le> t'" using Cons.prems(3) le by simp
  from st show ?case
  proof (cases rule: step_cases)
    case started
    have "\<forall>(t'', e)\<in>set evs. t'' < t' + D"
      using rest t0 by auto
    from run_while_scheduled [OF inv1 started(2,3) rn this] started(5)
    show ?thesis by simp
  next
    case (settled k bound)
    with Cons.IH [OF inv1 rn t0 rest] show ?thesis by simp
  next
    case (elapsed k due)
    with Cons.IH [OF inv1 rn t0 rest] show ?thesis by simp
  next
    case quiet
    with Cons.IH [OF inv1 rn t0 rest] show ?thesis by simp
  qed
qed

lemma run_while_cooling:
  assumes "scheduler_inv D t w" "sweep_tasks w = [AwaitDelay due]"
    and "run S t evs w = Some w'" "\<forall>(t', e)\<in>set evs. t' < due"
  shows "purge_scheduled w' \<and> purges_started w' = purges_started w \<and>
         sweep_tasks w' = [AwaitDelay due]"
  using assms
proof (induction evs arbitrary: t w)
  case Nil
  then show ?case by (auto simp: scheduler_inv_iff split: if_splits)
next
  case (Cons ev evs)
  obtain t' e where ev: "ev = (t', e)" by (cases ev)
  from Cons.prems(3) ev obtain w1 where le: "t \<le> t'" and st: "step S t' e w = Some w1"
    and rn: "run S t' evs w1 = Some w'"
    by (auto split: if_splits option.splits)
  from Cons.prems(4) ev have lt: "t' < due" and rest: "\<forall>(t', e)\<in>set evs. t' < due"
    by auto
  have inv1: "scheduler_inv D t' w1"
    using step_inv [OF Cons.prems(1) le st] .
  have sch: "purge_scheduled w"
    using Cons.prems(1,2) by (auto simp: scheduler_inv_iff split: if_splits)
  have keep: "sweep_tasks w1 = [AwaitDelay due] \<and> purges_started w1 = purges_started w"
    using st
  proof (cases rule: step_cases)
    case started
    with sch show ?thesis by simp
  next
    case (settled k bound)
    with Cons.prems(2) show ?thesis by simp
  next
    case (elapsed k due')
    with Cons.prems(2) lt show ?thesis by simp
  next
    case quiet
    with Cons.prems(2) show ?thesis by simp
  qed
  from Cons.IH [OF inv1 _ rn rest] keep show ?case by simp
qed

lemma Some_the: "x \<noteq> None \<Longrightarrow> x = Some (the x)"
  by auto

lemma run_calls:
  "sorted (t # map fst evs) \<Longrightarrow> \<forall>(t', e)\<in>set evs. is_call e \<Longrightarrow> run S t evs w \<noteq> None"
proof (induction evs arbitrary: t w)
  case Nil
  then show ?case by simp
next
  case (Cons ev evs)
  obtain t' e where ev: "ev = (t', e)" by (cases ev)
  with Cons.prems obtain tn i p x where e: "e = CallUpsert tn i p x"
    by (cases e) auto
  from Cons.prems(1) ev have "t \<le> t'" "sorted (t' # map fst evs)" by auto
  with Cons.IH [of t'] Cons.prems(2) show ?case
    by (simp add: ev e split_beta)
qed

subsection \<open>Debounce\<close>

text \<open>
  Claim C3. Take any run, from the instant \<open>t\<close>, of a module whose delay is \<open>D\<close> (the
  claim has \<open>D = 2000\<close>, a threshold of 5 and 20 calls; the threshold and the number of calls
  may be any). If all its events happen before \<open>t + D\<close>, then at most one purge is started
  in it. If a purge is scheduled at the start and all events happen before \<open>D\<close> has passed
  since that purge was started, or before its timer is due, then no purge is started and
  \<^verbatim>\<open>purge_scheduled\<close> stays set, however often the threshold is crossed: the next
  purge can start only after the delay has elapsed.
\<close>

theorem debounce:
  assumes "scheduler_inv D t w" and "run S t evs w = Some w'"
  shows "((\<forall>(t', e)\<in>set evs. t' < t + D) \<longrightarrow> purges_started w' \<le> purges_started w + 1) \<and>
         (purge_scheduled w \<longrightarrow>
            (\<forall>t1. purge_last_date w = Some t1 \<longrightarrow> (\<forall>(t', e)\<in>set evs. t' < t1 + D) \<longrightarrow>
               purge_scheduled w' \<and> purges_started w' = purges_started w)) \<and>
         (\<forall>due. sweep_tasks w = [AwaitDelay due] \<longrightarrow> (\<forall>(t', e)\<in>set evs. t' < due) \<longrightarrow>
               purge_scheduled w' \<and> purges_started w' = purges_started w)"
  using run_burst [OF assms order_refl] run_while_scheduled [OF assms(1) _ _ assms(2)]
    run_while_cooling [OF assms(1) _ assms(2)]
  by auto

lemma sample_configured_inv: "scheduler_inv 2000 0 sample_configured"
  by (simp add: scheduler_inv_def sample_configured_def setPurgeProperties_def sample_simps)

lemma sample_burst_times: "\<forall>(t', e)\<in>set sample_burst. t' < 0 + 2000"
  by (auto simp: sample_burst_def)

lemma sample_burst_run:
  "run sample_toSnakeCase 0 sample_burst sample_configured \<noteq> None"
  by code_simp

lemma sample_sweeping_state:
  "getPurgeInfo sample_sweeping = (2000, 5, 15, True, Some 4) \<and>
   sweep_tasks sample_sweeping = [AwaitPurge 4] \<and>
   purges_started sample_sweeping = 1"
  by code_simp

lemma sample_sweeping_facts:
  "scheduler_inv 2000 20 sample_sweeping"
  "purge_scheduled sample_sweeping"
  "purge_last_date sample_sweeping = Some 4"
  "purges_started sample_sweeping = 1"
  using sample_sweeping_state by (simp_all add: getPurgeInfo_def scheduler_inv_def)

lemma sample_cooling_eq:
  "sample_cooling =
     sample_sweeping\<lparr>db := purge_deletes sample_toSnakeCase 4 (db sample_sweeping),
                     sweep_tasks := [AwaitDelay 2030]\<rparr>"
  using sample_sweeping_state
  by (simp add: sample_cooling_def schedulePurge_resume_def getPurgeInfo_def)

lemma sample_cooling_step:
  "step sample_toSnakeCase 30 (ResumeSweep 0) sample_sweeping = Some sample_cooling"
  using sample_sweeping_state
  by (simp add: sample_cooling_eq schedulePurge_resume_def getPurgeInfo_def)

lemma sample_cooling_facts:
  "scheduler_inv 2000 30 sample_cooling"
  "sweep_tasks sample_cooling = [AwaitDelay 2030]"
  "purges_started sample_cooling = 1"
proof -
  show "scheduler_inv 2000 30 sample_cooling"
    using step_inv [OF sample_sweeping_facts(1) _ sample_cooling_step] by simp
  show "sweep_tasks sample_cooling = [AwaitDelay 2030]"
    by (simp add: sample_cooling_eq)
  show "purges_started sample_cooling = 1"
    using sample_sweeping_facts(4) by (simp add: sample_cooling_eq purges_started_def)
qed

lemma sample_more_facts:
  "\<forall>(t', e)\<in>set sample_more. t' < 4 + 2000" "\<forall>(t', e)\<in>set sample_more. t' < 2030"
  "run S 20 sample_more w \<noteq> None" "run S 30 sample_more w \<noteq> None"
  by (simp_all add: sample_more_def split_beta)

text \<open>
  The theorem at the sample of the claim: with a threshold of 5 and a delay of 2000 ms, 20
  calls of \<^verbatim>\<open>upsert\<close> within 20 ms start exactly one purge (at the fifth call);
  two more calls start none while the deletions are in flight, and none while the timer,
  due at 2030, has not fired.
\<close>

theorem debounce_witness:
  "scheduler_inv 2000 0 sample_configured \<and>
   run sample_toSnakeCase 0 sample_burst sample_configured = Some sample_sweeping \<and>
   purges_started sample_sweeping \<le> purges_started sample_configured + 1 \<and>
   purges_started sample_sweeping = 1 \<and>
   scheduler_inv 2000 20 sample_sweeping \<and>
   run sample_toSnakeCase 20 sample_more sample_sweeping =
     Some (the (run sample_toSnakeCase 20 sample_more sample_sweeping)) \<and>
   purge_scheduled sample_sweeping \<and> purge_last_date sample_sweeping = Some 4 \<and>
   purge_scheduled (the (run sample_toSnakeCase 20 sample_more sample_sweeping)) \<and>
   purges_started (the (run sample_toSnakeCase 20 sample_more sample_sweeping)) = 1 \<and>
   scheduler_inv 2000 30 sample_cooling \<and>
   run sample_toSnakeCase 30 sample_more sample_cooling =
     Some (the (run sample_toSnakeCase 30 sample_more sample_cooling)) \<and>
   sweep_tasks sample_cooling = [AwaitDelay 2030] \<and>
   purge_scheduled (the (run sample_toSnakeCase 30 sample_more sample_cooling)) \<and>
   purges_started (the (run sample_toSnakeCase 30 sample_more sample_cooling)) = 1"
proof -
  have r1: "run sample_toSnakeCase 0 sample_burst sample_configured = Some sample_sweeping"
    unfolding sample_sweeping_def by (rule Some_the) (rule sample_burst_run)
  have r2: "run sample_toSnakeCase 20 sample_more sample_sweeping =
     Some (the (run sample_toSnakeCase 20 sample_more sample_sweeping))"
    by (rule Some_the) (rule sample_more_facts(3))
  have r3: "run sample_toSnakeCase 30 sample_more sample_cooling =
     Some (the (run sample_toSnakeCase 30 sample_more sample_cooling))"
    by (rule Some_the) (rule sample_more_facts(4))
  note d1 = debounce [OF sample_configured_inv r1, THEN conjunct1, THEN mp, OF sample_burst_times]
  note d2 = debounce [OF sample_sweeping_facts(1) r2, THEN conjunct2, THEN conjunct1, THEN mp,
      OF sample_sweeping_facts(2), THEN spec, THEN mp, OF sample_sweeping_facts(3), THEN mp,
      OF sample_more_facts(1)]
  note d3 = debounce [OF sample_cooling_facts(1) r3, THEN conjunct2, THEN conjunct2, THEN spec,
      THEN mp, OF sample_cooling_facts(2), THEN mp, OF sample_more_facts(2)]
  have e2: "purges_started (the (run sample_toSnakeCase 20 sample_more sample_sweeping)) = 1"
    using d2 by (simp only: sample_sweeping_facts(4))
  have e3: "purges_started (the (run sample_toSnakeCase 30 sample_more sample_cooling)) = 1"
    using d3 by (simp only: sample_cooling_facts(3))
  show ?thesis
    apply (rule conjI, rule sample_configured_inv)
    apply (rule conjI, rule r1)
    apply (rule conjI, rule d1)
    apply (rule conjI, rule sample_sweeping_facts(4))
    apply (rule conjI, rule sample_sweeping_facts(1))
    apply (rule conjI, rule r2)
    apply (rule conjI, rule sample_sweeping_facts(2))
    apply (rule conjI, rule sample_sweeping_facts(3))
    apply (rule conjI, rule d2 [THEN conjunct1])
    apply (rule conjI, rule e2)
    apply (rule conjI, rule sample_cooling_facts(1))
    apply (rule conjI, rule r3)
    apply (rule conjI, rule sample_cooling_facts(2))
    apply (rule conjI, rule d3 [THEN conjunct1])
    apply (rule e3)
    done
qed

text \<open>
  On from there: the timer cannot fire at 2029; once it has fired at 2030, the next call of
  \<^verbatim>\<open>upsert\<close> starts the second purge, the counter being at 15.
\<close>

lemma sample_cooling_vars:
  "getPurgeInfo sample_cooling = (2000, 5, 15, True, Some 4)"
  using sample_sweeping_state by (simp add: sample_cooling_eq getPurgeInfo_def)

lemma sample_second_purge:
  "run sample_toSnakeCase 30 [(2029, ResumeSweep 0)] sample_cooling = None \<and>
   purges_started (the (run sample_toSnakeCase 30
      [(2030, ResumeSweep 0), (2031, CallUpsert ''oidc.session'' ''s2'' [] None)]
      sample_cooling)) = 2"
  using sample_cooling_vars sample_cooling_facts(2,3)
  by (simp add: schedulePurge_resume_def getPurgeInfo_def upsert_begin_def schedulePurge_def
      Let_def remove_nth_def purges_started_def)

subsection \<open>The upsert does not wait for the purge\<close>

lemma upsert_tasks_upsert_begin: "upsert_tasks (snd (upsert_begin p e now w)) = upsert_tasks w"
  by (cases rule: upsert_begin_cases [of w p e now]) simp_all

lemma upsert_selected_not_select: "upsert_selected tn i props now d \<noteq> AwaitSelect tn' i' props'"
  by (simp add: upsert_selected_def Let_def)

text \<open>
  A call of \<^verbatim>\<open>upsert\<close>, the answer of its select and the end of its write, with
  nothing in between, are the call run to its end.
\<close>

lemma run_upsert:
  assumes "t \<le> t2" "t2 \<le> t3"
  shows "run S t [(t, CallUpsert tn i p e),
                 (t2, ResumeUpsert (length (upsert_tasks w))),
                 (t3, ResumeUpsert (length (upsert_tasks w)))] w =
         Some (snd (upsert tn i p e t t2 t3 w))"
proof -
  obtain props w1 where b: "upsert_begin p e t w = (props, w1)"
    by (cases "upsert_begin p e t w")
  have len: "upsert_tasks w1 = upsert_tasks w"
    using upsert_tasks_upsert_begin [of p e t w] b by simp
  let ?k = "length (upsert_tasks w)"
  let ?wa = "w1\<lparr>upsert_tasks := upsert_tasks w @ [AwaitSelect tn i props]\<rparr>"
  let ?task = "upsert_selected tn i props t2 (db w1)"
  let ?wb = "w1\<lparr>upsert_tasks := upsert_tasks w @ [?task]\<rparr>"
  have s1: "step S t (CallUpsert tn i p e) w = Some ?wa"
    by (simp add: b len)
  have s2: "step S t2 (ResumeUpsert ?k) ?wa = Some ?wb"
    by (simp add: upsert_resume_def)
  have s3: "step S t3 (ResumeUpsert ?k) ?wb =
      Some (w1\<lparr>db := upsert_statement ?task t3 (db w1)\<rparr>)"
    using len
    by (cases ?task) (simp_all add: upsert_resume_def remove_nth_def upsert_selected_not_select)
  have u: "snd (upsert tn i p e t t2 t3 w) = w1\<lparr>db := upsert_statement ?task t3 (db w1)\<rparr>"
    by (simp add: upsert_def b)
  show ?thesis
    using assms by (simp add: s1 s2 s3 u del: step.simps)
qed

text \<open>
  Claim C5. When a call of \<^verbatim>\<open>upsert\<close> crosses the threshold and no purge is
  scheduled, the three segments of the call can run one after the other with no event of
  the purge among them: the call is fulfilled, it is no longer among the suspended calls,
  and the record is stored, while the call of \<^verbatim>\<open>schedulePurge\<close> that it
  started is still suspended at \<^verbatim>\<open>await this.purge()\<close> and
  \<^verbatim>\<open>purge_scheduled\<close> is still set: neither the deletions nor the delay have
  been waited for.
\<close>

theorem upsert_returns_before_purge:
  assumes "purge_every_upserts_count w \<le> upserts_since_purge_count w + 1"
    and "\<not> purge_scheduled w" and "t \<le> t2" and "t2 \<le> t3"
  shows "run S t [(t, CallUpsert tn i p e),
                 (t2, ResumeUpsert (length (upsert_tasks w))),
                 (t3, ResumeUpsert (length (upsert_tasks w)))] w =
           Some (snd (upsert tn i p e t t2 t3 w)) \<and>
         fst (upsert tn i p e t t2 t3 w) = Inr () \<and>
         upsert_tasks (snd (upsert tn i p e t t2 t3 w)) = upsert_tasks w \<and>
         (\<exists>r\<in>set (db (snd (upsert tn i p e t t2 t3 w)) tn). row_id r = i \<and> data r = p) \<and>
         sweep_tasks (snd (upsert tn i p e t t2 t3 w)) = sweep_tasks w @ [AwaitPurge t] \<and>
         purge_scheduled (snd (upsert tn i p e t t2 t3 w)) \<and>
         purges_started (snd (upsert tn i p e t t2 t3 w)) = purges_started w + 1"
proof -
  have s: "snd (upsert_begin p e t w) =
         w\<lparr>upserts_since_purge_count := 0, purge_scheduled := True,
           debug_log := debug_log w @ [''Scheduling a new purge''],
           purge_last_date := Some t, sweep_tasks := sweep_tasks w @ [AwaitPurge t]\<rparr>"
    using assms(1,2) by (cases rule: upsert_begin_cases [of w p e t]) simp_all
  have w': "snd (upsert tn i p e t t2 t3 w) =
      (snd (upsert_begin p e t w))\<lparr>db := db (snd (upsert tn i p e t t2 t3 w))\<rparr>"
    by (simp add: upsert_def split_beta Let_def)
  have f: "sweep_tasks (snd (upsert tn i p e t t2 t3 w)) = sweep_tasks w @ [AwaitPurge t]"
    "purge_scheduled (snd (upsert tn i p e t t2 t3 w))"
    "purges_started (snd (upsert tn i p e t t2 t3 w)) = purges_started w + 1"
    "upsert_tasks (snd (upsert tn i p e t t2 t3 w)) = upsert_tasks w"
    by (subst w', simp add: s purges_started_def)+
  have r: "\<exists>r\<in>set (db (snd (upsert tn i p e t t2 t3 w)) tn). row_id r = i \<and> data r = p"
    using upsert_has_row [of tn i p e t t2 t3 w] upsert_row_written(1) by blast
  have o: "fst (upsert tn i p e t t2 t3 w) = Inr ()"
    by (simp add: upsert_def split_beta Let_def)
  show ?thesis
    using run_upsert [OF assms(3,4)] f r o by simp
qed

lemma sample_eager_facts:
  "purge_every_upserts_count sample_eager \<le> upserts_since_purge_count sample_eager + 1"
  "\<not> purge_scheduled sample_eager"
  "sweep_tasks sample_eager = []" "upsert_tasks sample_eager = []"
  "purges_started sample_eager = 0"
  by (simp_all add: sample_eager_def setPurgeProperties_def sample_simps purges_started_def)

text \<open>
  The theorem at the sample that purges at every upsert.
\<close>

theorem upsert_returns_before_purge_witness:
  "purge_every_upserts_count sample_eager \<le> upserts_since_purge_count sample_eager + 1 \<and>
   \<not> purge_scheduled sample_eager \<and> (1000::int) \<le> 1001 \<and> (1001::int) \<le> 1002 \<and>
   run sample_toSnakeCase 1000
     [(1000, CallUpsert ''oidc.session'' ''s1'' [] (Some 60)),
      (1001, ResumeUpsert 0), (1002, ResumeUpsert 0)] sample_eager =
     Some (snd (upsert ''oidc.session'' ''s1'' [] (Some 60) 1000 1001 1002 sample_eager)) \<and>
   fst (upsert ''oidc.session'' ''s1'' [] (Some 60) 1000 1001 1002 sample_eager) = Inr () \<and>
   upsert_tasks (snd (upsert ''oidc.session'' ''s1'' [] (Some 60) 1000 1001 1002 sample_eager)) = [] \<and>
   sweep_tasks (snd (upsert ''oidc.session'' ''s1'' [] (Some 60) 1000 1001 1002 sample_eager)) =
     [AwaitPurge 1000] \<and>
   purge_scheduled (snd (upsert ''oidc.session'' ''s1'' [] (Some 60) 1000 1001 1002 sample_eager))"
proof -
  have t: "(1000::int) \<le> 1001" "(1001::int) \<le> 1002" by simp_all
  note u = upsert_returns_before_purge [OF sample_eager_facts(1,2) t,
      of sample_toSnakeCase "''oidc.session''" "''s1''" "[]" "Some 60"]
  show ?thesis
    using u sample_eager_facts(1,2) by (simp add: sample_eager_facts(3,4))
qed

subsection \<open>A call of upsert with the purge it starts\<close>

text \<open>
  The call run to its end in the order of the source (\<open>upsert_ends\<close>) leaves the
  database that the three segments of the call make of the database after the deletions of
  the purge, when the call starts one, and of the database as it was, when it starts none.
\<close>

lemma run_Cons_Some:
  "run S t ((t', e) # es) w = Some w' \<longleftrightarrow>
     t \<le> t' \<and> (\<exists>w1. step S t' e w = Some w1 \<and> run S t' es w1 = Some w')"
  by (auto split: option.splits)

lemma run_stepI:
  "t \<le> t' \<Longrightarrow> step S t' e w = Some w1 \<Longrightarrow> run S t' es w1 = r \<Longrightarrow>
     run S t ((t', e) # es) w = r"
  by simp

lemma db_upsert_at:
  "db (snd (upsert tn i p e now now_s now_w (w\<lparr>db := d\<rparr>))) =
     upsert_statement (upsert_selected tn i (fst (upsert_begin p e now w)) now_s d) now_w d"
  by (simp add: upsert_def split_beta Let_def db_upsert_begin fst_upsert_begin)

lemma upsert_begin_starts:
  "starts_purge w \<Longrightarrow>
     snd (upsert_begin p e now w) =
       w\<lparr>upserts_since_purge_count := 0, purge_scheduled := True,
         debug_log := debug_log w @ [''Scheduling a new purge''],
         purge_last_date := Some now, sweep_tasks := sweep_tasks w @ [AwaitPurge now]\<rparr>"
  by (cases rule: upsert_begin_cases [of w p e now]) (simp_all add: starts_purge_def)

text \<open>
  A call that starts a purge, the deletions of the purge, the answer of the select and the
  end of the write, with nothing in between.
\<close>

lemma run_upsert_purging:
  assumes "starts_purge w" "t \<le> t1" "t1 \<le> t2" "t2 \<le> t3"
  shows "\<exists>w'. run S t [(t, CallUpsert tn i p e),
                 (t1, ResumeSweep (length (sweep_tasks w))),
                 (t2, ResumeUpsert (length (upsert_tasks w))),
                 (t3, ResumeUpsert (length (upsert_tasks w)))] w = Some w' \<and>
           db w' = db (snd (upsert tn i p e t t2 t3 (w\<lparr>db := purge_deletes S t (db w)\<rparr>)))"
proof -
  let ?props = "fst (upsert_begin p e t w)"
  let ?w1 = "snd (upsert_begin p e t w)"
  let ?D = "purge_deletes S t (db w)"
  let ?k = "length (upsert_tasks w)"
  let ?j = "length (sweep_tasks w)"
  have ut: "upsert_tasks ?w1 = upsert_tasks w"
    by (rule upsert_tasks_upsert_begin)
  have st: "sweep_tasks ?w1 = sweep_tasks w @ [AwaitPurge t]"
    using assms(1) by (simp add: upsert_begin_starts)
  have dbw1: "db ?w1 = db w" by (rule db_upsert_begin)
  let ?wa = "?w1\<lparr>upsert_tasks := upsert_tasks w @ [AwaitSelect tn i ?props]\<rparr>"
  let ?wb = "?wa\<lparr>db := ?D,
      sweep_tasks := sweep_tasks w @
        [AwaitDelay (t1 + purge_single_execution_protection_delay ?w1)]\<rparr>"
  let ?task = "upsert_selected tn i ?props t2 ?D"
  let ?wc = "?wb\<lparr>upsert_tasks := upsert_tasks w @ [?task]\<rparr>"
  let ?wd = "?wc\<lparr>db := upsert_statement ?task t3 ?D, upsert_tasks := upsert_tasks w\<rparr>"
  have s1: "step S t (CallUpsert tn i p e) w = Some ?wa"
    by (simp add: split_beta ut)
  have s2: "step S t1 (ResumeSweep ?j) ?wa = Some ?wb"
    by (simp add: schedulePurge_resume_def st dbw1)
  have s3: "step S t2 (ResumeUpsert ?k) ?wb = Some ?wc"
    by (simp add: upsert_resume_def)
  have s4: "step S t3 (ResumeUpsert ?k) ?wc = Some ?wd"
    by (cases ?task) (simp_all add: upsert_resume_def remove_nth_def upsert_selected_not_select)
  have "run S t [(t, CallUpsert tn i p e), (t1, ResumeSweep ?j),
                 (t2, ResumeUpsert ?k), (t3, ResumeUpsert ?k)] w = Some ?wd"
    by (rule run_stepI [OF order_refl s1], rule run_stepI [OF assms(2) s2],
        rule run_stepI [OF assms(3) s3], rule run_stepI [OF assms(4) s4], rule run.simps(1))
  moreover have "db ?wd = db (snd (upsert tn i p e t t2 t3 (w\<lparr>db := ?D\<rparr>)))"
    by (simp add: db_upsert_at)
  ultimately show ?thesis by blast
qed

lemma upsert_ends_iff:
  "upsert_ends S tn i p e now now_p now_s now_w w w' \<Longrightarrow>
     (if starts_purge w then now \<le> now_p \<and> now_p \<le> now_s else now \<le> now_s) \<and> now_s \<le> now_w"
  by (cases "starts_purge w")
     (auto simp: upsert_ends_def run_Cons_Some simp del: step.simps run.simps)

lemma upsert_ends_db:
  assumes "upsert_ends S tn i p e now now_p now_s now_w w w'"
  shows "db w' = db (snd (upsert tn i p e now now_s now_w
            (w\<lparr>db := (if starts_purge w then purge_deletes S now (db w) else db w)\<rparr>)))"
proof (cases "starts_purge w")
  case True
  from upsert_ends_iff [OF assms] True
  have o: "now \<le> now_p" "now_p \<le> now_s" "now_s \<le> now_w" by simp_all
  from run_upsert_purging [OF True o, of S tn i p e] assms True
  show ?thesis by (auto simp: upsert_ends_def)
next
  case False
  from upsert_ends_iff [OF assms] False
  have o: "now \<le> now_s" "now_s \<le> now_w" by simp_all
  from run_upsert [OF o, of S tn i p e w] assms False
  show ?thesis by (simp add: upsert_ends_def)
qed

lemma upsert_ends_quiet:
  assumes "\<not> starts_purge w" "now \<le> now_s" "now_s \<le> now_w"
  shows "upsert_ends S tn i p e now now_p now_s now_w w (snd (upsert tn i p e now now_s now_w w))"
  using run_upsert [OF assms(2,3), of S tn i p e w] assms(1) by (simp add: upsert_ends_def)

lemma upsert_ends_exists:
  assumes "now \<le> now_p" "now_p \<le> now_s" "now_s \<le> now_w"
  shows "\<exists>w'. upsert_ends S tn i p e now now_p now_s now_w w w'"
proof (cases "starts_purge w")
  case True
  with run_upsert_purging [OF True assms, of S tn i p e] show ?thesis
    by (auto simp: upsert_ends_def)
next
  case False
  with upsert_ends_quiet [OF False _ assms(3), of now S tn i p e now_p] assms show ?thesis
    by auto
qed

lemma upsert_ends_table:
  assumes "upsert_ends S tn i p e now now_p now_s now_w w w'"
  shows "db w' tn = db (snd (upsert tn i p e now now_s now_w
            (w\<lparr>db := (if starts_purge w then purge_deletes S now (db w) else db w)\<rparr>))) tn"
  using upsert_ends_db [OF assms] by simp


lemma upsert_ends_rows:
  assumes "upsert_ends S tn i p e now now_p now_s now_w w w'"
  shows "\<exists>r\<in>set (db w' tn). row_id r = i"
    and "\<And>r. r \<in> set (db w' tn) \<Longrightarrow> row_id r = i \<Longrightarrow> data r = p"
    and "\<And>r t. r \<in> set (db w' tn) \<Longrightarrow> row_id r = i \<Longrightarrow> e = Some t \<Longrightarrow> t \<noteq> 0 \<Longrightarrow>
           expires_at r = Some (now + t * 1000)"
  unfolding upsert_ends_table [OF assms]
  by (rule upsert_has_row, erule (1) upsert_row_written(1), erule (3) upsert_row_written(2))



text \<open>Facts about the samples.\<close>

lemma sample_starts:
  "\<not> starts_purge sample_world" "starts_purge sample_eager"
  "db sample_world = sample_db" "db sample_eager = sample_db"
  by (simp_all add: starts_purge_def sample_eager_def setPurgeProperties_def sample_simps)

lemma sample_volatile:
  "''oidc.session'' \<in> StorageAdapter sample_toSnakeCase ` set VOLATILE_TYPES"
  "''oidc.device_code'' \<in> StorageAdapter sample_toSnakeCase ` set VOLATILE_TYPES"
proof -
  have ts: "StorageAdapter sample_toSnakeCase ''Session'' = ''oidc.session''"
    and td: "StorageAdapter sample_toSnakeCase ''DeviceCode'' = ''oidc.device_code''"
    by (simp_all add: StorageAdapter_def sample_toSnakeCase_def)
  have "StorageAdapter sample_toSnakeCase ''Session'' \<in>
          StorageAdapter sample_toSnakeCase ` set VOLATILE_TYPES"
       "StorageAdapter sample_toSnakeCase ''DeviceCode'' \<in>
          StorageAdapter sample_toSnakeCase ` set VOLATILE_TYPES"
    by (rule imageI, simp add: VOLATILE_TYPES_def)+
  then show "''oidc.session'' \<in> StorageAdapter sample_toSnakeCase ` set VOLATILE_TYPES"
    "''oidc.device_code'' \<in> StorageAdapter sample_toSnakeCase ` set VOLATILE_TYPES"
    by (simp_all only: ts td)
qed

lemma sample_purged:
  "purge_deletes sample_toSnakeCase now sample_db ''oidc.session'' =
     del_expired now (sample_db ''oidc.session'')"
  "purge_deletes sample_toSnakeCase now sample_db ''oidc.device_code'' =
     del_expired now (sample_db ''oidc.device_code'')"
  by (simp_all only: purge_deletes_table sample_volatile if_True)

lemma sample_rows:
  "sample_db ''oidc.session'' =
        [\<lparr>row_id = ''s1'', data = [(''uid'', JStr ''u1'')], created_at = 100,
          updated_at = None, expires_at = Some 500\<rparr>,
         \<lparr>row_id = ''s2'', data = [(''uid'', JStr ''u2'')], created_at = 200,
          updated_at = None, expires_at = None\<rparr>]"
  "sample_db ''oidc.device_code'' =
        [\<lparr>row_id = ''d1'', data = [(''userCode'', JStr ''c1'')], created_at = 300,
          updated_at = None, expires_at = Some 900\<rparr>]"
  by (simp_all add: sample_db_def)

lemma sample_order:
  "(1000::int) \<le> 1000" "(1000::int) \<le> 1001" "(1001::int) \<le> 1002"
  "(600::int) \<le> 600" "(600::int) \<le> 601" "(601::int) \<le> 602"
  by simp_all

subsection \<open>Expiration at read time\<close>

text \<open>
  A lookup by a property, on the table after an upsert with a non-zero
  \<^verbatim>\<open>expiresIn\<close>: \<open>C\<close> is the condition on the data.
\<close>

lemma lookup_after_upsert:
  assumes "t \<noteq> 0"
    and "upsert_ends S tn i p (Some t) now now_p now_s now_w w w'"
  shows "now + t * 1000 \<le> now_f \<Longrightarrow>
           first_data (filter (\<lambda>r. C r \<and> not_expired now_f r) (db w' tn)) =
           first_data (filter (\<lambda>r. C r \<and> not_expired now_f r) (db (snd (destroy tn i w')) tn))"
    and "now_f < now + t * 1000 \<Longrightarrow> (\<And>r. data r = p \<Longrightarrow> C r) \<Longrightarrow>
           first_data (filter (\<lambda>r. C r \<and> not_expired now_f r) (db w' tn)) = Some p \<or>
           (\<exists>r\<in>set (db w' tn). row_id r \<noteq> i \<and> C r \<and> not_expired now_f r \<and>
              first_data (filter (\<lambda>r. C r \<and> not_expired now_f r) (db w' tn)) = Some (data r))"
proof -
  let ?Q = "\<lambda>r. C r \<and> not_expired now_f r"
  have e: "not_expired now_f r = (now_f < now + t * 1000)"
    if "r \<in> set (db w' tn)" "row_id r = i" for r
    using upsert_ends_rows(3) [OF assms(2) that refl assms(1)] by (simp add: not_expired_def)
  show "first_data (filter ?Q (db w' tn)) =
        first_data (filter ?Q (db (snd (destroy tn i w')) tn))" if "now + t * 1000 \<le> now_f"
  proof -
    have "\<forall>r\<in>set (db w' tn). row_id r = i \<longrightarrow> \<not> ?Q r"
      using e that by auto
    then show ?thesis
      by (simp only: db_destroy filter_hidden)
  qed
  show "first_data (filter ?Q (db w' tn)) = Some p \<or>
        (\<exists>r\<in>set (db w' tn). row_id r \<noteq> i \<and> C r \<and> not_expired now_f r \<and>
           first_data (filter ?Q (db w' tn)) = Some (data r))"
    if b: "now_f < now + t * 1000" and c: "\<And>r. data r = p \<Longrightarrow> C r"
  proof -
    obtain r0 where r0: "r0 \<in> set (db w' tn)" "row_id r0 = i"
      using upsert_ends_rows(1) [OF assms(2)] by blast
    have "?Q r0"
      using e [OF r0] b c [OF upsert_ends_rows(2) [OF assms(2) r0]] by simp
    from first_data_some [OF r0(1), of ?Q, OF this]
    obtain r where r: "r \<in> set (db w' tn)" "?Q r"
        "first_data (filter ?Q (db w' tn)) = Some (data r)"
      by blast
    show ?thesis
    proof (cases "row_id r = i")
      case True
      with r upsert_ends_rows(2) [OF assms(2) r(1)] show ?thesis by simp
    next
      case False
      with r show ?thesis by blast
    qed
  qed
qed

lemma find_after_upsert_ends:
  assumes "t \<noteq> 0"
    and "upsert_ends S tn i p (Some t) now now_p now_s now_w w w'"
  shows "fst (find_op tn i now_f w') = Inr (if now_f < now + t * 1000 then Some p else None)"
proof -
  have "fst (find_op tn i now_f w') =
        fst (find_op tn i now_f (snd (upsert tn i p (Some t) now now_s now_w
            (w\<lparr>db := (if starts_purge w then purge_deletes S now (db w) else db w)\<rparr>))))"
    by (simp add: find_op_def upsert_ends_table [OF assms(2)])
  then show ?thesis
    by (simp only: find_after_upsert [OF assms(1)])
qed

text \<open>
  Claim C1, as amended. Take a call of \<^verbatim>\<open>upsert\<close> with a non-zero
  \<^verbatim>\<open>expiresIn = t\<close>, made at the instant \<open>now\<close> and run to its end. A row
  of the given id is stored, every such row holds the payload and
  \<^verbatim>\<open>expires_at = now + 1000 * t\<close>, and at the instant \<open>now_f\<close>
  \<^verbatim>\<open>find\<close> returns the payload when \<open>now_f\<close> is before that instant and
  \<^verbatim>\<open>null\<close> from that instant on, the row being still in the table.
  \<^verbatim>\<open>findByUid\<close> and \<^verbatim>\<open>findByUserCode\<close>, for a value that JSON
  writes as it is, follow the same rule of visibility. On any table they return the data of
  the first row that carries the value and has not expired, and \<^verbatim>\<open>null\<close>
  when there is none. So from \<open>now + 1000 * t\<close> on they answer as if the stored row had
  been deleted; before that instant, when the payload carries the value, they return the
  payload, or the data of an unexpired row of another id that carries the value too. What
  they do with a value that has a double quote, a backslash or a control character is left
  out.
\<close>

theorem expiration_visibility:
  assumes "t \<noteq> 0"
    and "upsert_ends S tn i p (Some t) now now_p now_s now_w w w'"
  shows "(\<exists>r\<in>set (db w' tn). row_id r = i) \<and>
    (\<forall>r\<in>set (db w' tn). row_id r = i \<longrightarrow> data r = p \<and> expires_at r = Some (now + t * 1000)) \<and>
    fst (find_op tn i now_f w') = Inr (if now_f < now + t * 1000 then Some p else None) \<and>
    (json_plain uid \<longrightarrow>
       (now + t * 1000 \<le> now_f \<longrightarrow>
          fst (findByUid jsonb tn uid now_f w') =
          fst (findByUid jsonb tn uid now_f (snd (destroy tn i w')))) \<and>
       (now_f < now + t * 1000 \<and> map_of p ''uid'' = Some (JStr uid) \<longrightarrow>
          fst (findByUid jsonb tn uid now_f w') = Inr (Some p) \<or>
          (\<exists>r\<in>set (db w' tn). row_id r \<noteq> i \<and> data_contains ''uid'' uid r \<and>
             not_expired now_f r \<and>
             fst (findByUid jsonb tn uid now_f w') = Inr (Some (data r)))) \<and>
       ((\<forall>r\<in>set (db v tn'). \<not> (data_contains ''uid'' uid r \<and> not_expired now_f r)) \<longrightarrow>
          fst (findByUid jsonb tn' uid now_f v) = Inr None) \<and>
       (db v tn' = ys @ x # zs \<and>
        (\<forall>y\<in>set ys. \<not> (data_contains ''uid'' uid y \<and> not_expired now_f y)) \<and>
        data_contains ''uid'' uid x \<and> not_expired now_f x \<longrightarrow>
          fst (findByUid jsonb tn' uid now_f v) = Inr (Some (data x)))) \<and>
    (json_plain userCode \<longrightarrow>
       (now + t * 1000 \<le> now_f \<longrightarrow>
          fst (findByUserCode jsonb tn userCode now_f w') =
          fst (findByUserCode jsonb tn userCode now_f (snd (destroy tn i w')))) \<and>
       (now_f < now + t * 1000 \<and> map_of p ''userCode'' = Some (JStr userCode) \<longrightarrow>
          fst (findByUserCode jsonb tn userCode now_f w') = Inr (Some p) \<or>
          (\<exists>r\<in>set (db w' tn). row_id r \<noteq> i \<and> data_contains ''userCode'' userCode r \<and>
             not_expired now_f r \<and>
             fst (findByUserCode jsonb tn userCode now_f w') = Inr (Some (data r)))) \<and>
       ((\<forall>r\<in>set (db v tn').
            \<not> (data_contains ''userCode'' userCode r \<and> not_expired now_f r)) \<longrightarrow>
          fst (findByUserCode jsonb tn' userCode now_f v) = Inr None) \<and>
       (db v tn' = ys @ x # zs \<and>
        (\<forall>y\<in>set ys. \<not> (data_contains ''userCode'' userCode y \<and> not_expired now_f y)) \<and>
        data_contains ''userCode'' userCode x \<and> not_expired now_f x \<longrightarrow>
          fst (findByUserCode jsonb tn' userCode now_f v) = Inr (Some (data x))))"
proof -
  note rows = upsert_ends_rows [OF assms(2)]
  have stored: "\<exists>r\<in>set (db w' tn). row_id r = i"
    by (rule rows(1))
  have written: "\<forall>r\<in>set (db w' tn). row_id r = i \<longrightarrow>
      data r = p \<and> expires_at r = Some (now + t * 1000)"
    using rows(2) rows(3) [OF _ _ refl assms(1)] by blast
  have by_id: "fst (find_op tn i now_f w') = Inr (if now_f < now + t * 1000 then Some p else None)"
    by (rule find_after_upsert_ends [OF assms])
  note after = lookup_after_upsert [OF assms]
  show ?thesis
    apply (intro conjI impI)
    subgoal by (rule stored)
    subgoal by (rule written)
    subgoal by (rule by_id)
    subgoal by (simp add: findByUid_plain after(1))
    subgoal using after(2) [of now_f "data_contains ''uid'' uid"]
      by (simp add: findByUid_plain data_contains_def)
    subgoal by (simp add: findByUid_plain first_data_def)
    subgoal by (simp add: findByUid_plain first_data_def)
    subgoal by (simp add: findByUserCode_plain after(1))
    subgoal using after(2) [of now_f "data_contains ''userCode'' userCode"]
      by (simp add: findByUserCode_plain data_contains_def)
    subgoal by (simp add: findByUserCode_plain first_data_def)
    subgoal by (simp add: findByUserCode_plain first_data_def)
    done
qed

text \<open>
  The theorem at the samples. A session stored for 60 seconds at the instant 1000 is found by
  its id and by its uid until 60999 and no longer at 61000, and its row is still there. A
  device code stored for 60 seconds at the instant 600, by a call that starts a purge, under
  the user code of the device code \<^verbatim>\<open>d1\<close>, which comes first in the table
  and expires at 900: the lookup returns \<^verbatim>\<open>d1\<close> until 899, the new device
  code from 900, when \<^verbatim>\<open>d1\<close> has expired and is still stored, until 60599,
  and \<^verbatim>\<open>null\<close> at 60600.
\<close>

theorem expiration_visibility_witness:
  "(60::int) \<noteq> 0 \<and>
   upsert_ends sample_toSnakeCase ''oidc.session'' ''s3'' [(''uid'', JStr ''u3'')] (Some 60)
     1000 1000 1001 1002 sample_world sample_stored \<and>
   map row_id (db sample_stored ''oidc.session'') = [''s1'', ''s2'', ''s3''] \<and>
   fst (find_op ''oidc.session'' ''s3'' 60999 sample_stored) = Inr (Some [(''uid'', JStr ''u3'')]) \<and>
   fst (find_op ''oidc.session'' ''s3'' 61000 sample_stored) = Inr None \<and>
   json_plain ''u3'' \<and>
   map_of [(''uid'', JStr ''u3'')] ''uid'' = Some (JStr ''u3'') \<and>
   fst (findByUid sample_jsonb ''oidc.session'' ''u3'' 60999 sample_stored) =
     Inr (Some [(''uid'', JStr ''u3'')]) \<and>
   fst (findByUid sample_jsonb ''oidc.session'' ''u3'' 61000 sample_stored) = Inr None \<and>
   (\<exists>w'. upsert_ends sample_toSnakeCase ''oidc.device_code'' ''d2''
            [(''userCode'', JStr ''c1''), (''n'', JStr ''2'')] (Some 60) 600 600 601 602
            sample_eager w' \<and>
          json_plain ''c1'' \<and>
          map row_id (db w' ''oidc.device_code'') = [''d1'', ''d2''] \<and>
          fst (findByUserCode sample_jsonb ''oidc.device_code'' ''c1'' 899 w') =
            Inr (Some [(''userCode'', JStr ''c1'')]) \<and>
          fst (findByUserCode sample_jsonb ''oidc.device_code'' ''c1'' 900 w') =
            Inr (Some [(''userCode'', JStr ''c1''), (''n'', JStr ''2'')]) \<and>
          fst (findByUserCode sample_jsonb ''oidc.device_code'' ''c1'' 60599 w') =
            Inr (Some [(''userCode'', JStr ''c1''), (''n'', JStr ''2'')]) \<and>
          fst (findByUserCode sample_jsonb ''oidc.device_code'' ''c1'' 60600 w') = Inr None)"
proof -
  note ev = sample_starts sample_purged sample_rows del_expired_def expired_at_def where_id_def
  have t: "(60::int) \<noteq> 0" by simp
  have plain: "json_plain ''u3''" "json_plain ''c1''"
    by (simp_all add: json_plain_def)
  have w1: "upsert_ends sample_toSnakeCase ''oidc.session'' ''s3'' [(''uid'', JStr ''u3'')] (Some 60)
     1000 1000 1001 1002 sample_world sample_stored"
    unfolding sample_stored_def
    by (rule upsert_ends_quiet [OF sample_starts(1) sample_order(2,3)])
  have T1: "db sample_stored ''oidc.session'' =
        [\<lparr>row_id = ''s1'', data = [(''uid'', JStr ''u1'')], created_at = 100,
          updated_at = None, expires_at = Some 500\<rparr>,
         \<lparr>row_id = ''s2'', data = [(''uid'', JStr ''u2'')], created_at = 200,
          updated_at = None, expires_at = None\<rparr>,
         \<lparr>row_id = ''s3'', data = [(''uid'', JStr ''u3'')], created_at = 1002,
          updated_at = None, expires_at = Some 61000\<rparr>]"
    unfolding sample_stored_def
    by (subst upsert_table) (simp add: fst_upsert_begin insert_row_def Let_def ev)
  obtain w2 where w2: "upsert_ends sample_toSnakeCase ''oidc.device_code'' ''d2''
            [(''userCode'', JStr ''c1''), (''n'', JStr ''2'')] (Some 60) 600 600 601 602
            sample_eager w2"
    using upsert_ends_exists [OF sample_order(4-6)] by blast
  have T2: "db w2 ''oidc.device_code'' =
        [\<lparr>row_id = ''d1'', data = [(''userCode'', JStr ''c1'')], created_at = 300,
          updated_at = None, expires_at = Some 900\<rparr>,
         \<lparr>row_id = ''d2'', data = [(''userCode'', JStr ''c1''), (''n'', JStr ''2'')],
          created_at = 602, updated_at = None, expires_at = Some 60600\<rparr>]"
    unfolding upsert_ends_table [OF w2]
    by (subst upsert_table) (simp add: fst_upsert_begin insert_row_def Let_def ev)
  note v1 = expiration_visibility [OF t w1, where uid = "''u3''" and jsonb = sample_jsonb]
  note v2 = expiration_visibility [OF t w2, where userCode = "''c1''" and jsonb = sample_jsonb
      and v = w2 and tn' = "''oidc.device_code''"]
  have f1: "fst (find_op ''oidc.session'' ''s3'' 60999 sample_stored) =
        Inr (Some [(''uid'', JStr ''u3'')])"
    and f2: "fst (find_op ''oidc.session'' ''s3'' 61000 sample_stored) = Inr None"
    using v1 [of 60999] v1 [of 61000] by simp_all
  have u1: "fst (findByUid sample_jsonb ''oidc.session'' ''u3'' 60999 sample_stored) =
     Inr (Some [(''uid'', JStr ''u3'')])"
    using v1 [of 60999] plain(1) by (simp add: T1 data_contains_def)
  have u2: "fst (findByUid sample_jsonb ''oidc.session'' ''u3'' 61000 sample_stored) = Inr None"
    using v1 [of 61000] plain(1)
    by (simp add: T1 findByUid_plain db_destroy data_contains_def first_data_def)
  have c1: "fst (findByUserCode sample_jsonb ''oidc.device_code'' ''c1'' 899 w2) =
            Inr (Some [(''userCode'', JStr ''c1'')])"
    using v2 [of 899] plain(2)
    by (simp add: T2 findByUserCode_plain data_contains_def not_expired_def first_data_def)
  have c2: "fst (findByUserCode sample_jsonb ''oidc.device_code'' ''c1'' 900 w2) =
            Inr (Some [(''userCode'', JStr ''c1''), (''n'', JStr ''2'')])"
    using v2 [of 900] plain(2) by (simp add: T2 data_contains_def not_expired_def)
  have c3: "fst (findByUserCode sample_jsonb ''oidc.device_code'' ''c1'' 60599 w2) =
            Inr (Some [(''userCode'', JStr ''c1''), (''n'', JStr ''2'')])"
    using v2 [of 60599] plain(2) by (simp add: T2 data_contains_def not_expired_def)
  have c4: "fst (findByUserCode sample_jsonb ''oidc.device_code'' ''c1'' 60600 w2) = Inr None"
    using v2 [of 60600] plain(2)
    by (simp add: T2 findByUserCode_plain db_destroy data_contains_def first_data_def
          not_expired_def)
  show ?thesis
    apply (intro conjI)
    subgoal by simp
    subgoal by (rule w1)
    subgoal by (simp add: T1)
    subgoal by (rule f1)
    subgoal by (rule f2)
    subgoal by (rule plain)
    subgoal by simp
    subgoal by (rule u1)
    subgoal by (rule u2)
    subgoal using w2 plain(2) c1 c2 c3 c4 by (intro exI [of _ w2]) (simp add: T2)
    done
qed

text \<open>
  Claim C1 as stated fails for \<^verbatim>\<open>expiresIn = 0\<close>: the guard
  \<^verbatim>\<open>if (expiresIn)\<close> is false, no \<^verbatim>\<open>expires_at\<close> is written, and the
  new record is found at the instant of the insertion, where the claim wants
  \<^verbatim>\<open>null\<close>.
\<close>

theorem zero_ttl_stays_visible:
  "fst (find_op ''oidc.session'' ''s3'' 1000
         (snd (upsert ''oidc.session'' ''s3'' [(''uid'', JStr ''u3'')] (Some 0) 1000 1000 1000 sample_world))) \<noteq>
     Inr (if (1000::int) < 1000 + 0 * 1000 then Some [(''uid'', JStr ''u3'')] else None)"
  by (simp add: upsert_simps find_simps sample_simps)

subsection \<open>The expiry instant written by an upsert\<close>




subsection \<open>Upsert of an existing id without an expiry\<close>




subsection \<open>The counter of upserts\<close>

lemma step_counter:
  assumes "step S t e w = Some w'"
  shows "purges_started w \<le> purges_started w'"
    and "purges_started w' = purges_started w \<Longrightarrow>
         upserts_since_purge_count w' =
           upserts_since_purge_count w + (if is_call e then 1 else 0)"
proof -
  have "purges_started w \<le> purges_started w' \<and>
     (purges_started w' = purges_started w \<longrightarrow>
         upserts_since_purge_count w' =
           upserts_since_purge_count w + (if is_call e then 1 else 0))"
  proof (cases e)
    case (CallUpsert tn i p x)
    with assms have w': "w' = (snd (upsert_begin p x t w))
        \<lparr>upsert_tasks := upsert_tasks (snd (upsert_begin p x t w)) @
            [AwaitSelect tn i (fst (upsert_begin p x t w))]\<rparr>"
      by (simp add: split_beta)
    show ?thesis
      by (cases rule: upsert_begin_cases [of w p x t])
        (simp_all add: w' CallUpsert purges_started_def)
  next
    case (ResumeUpsert k)
    with assms show ?thesis
      by (auto simp: upsert_resume_def purges_started_def split: if_splits upsert_task.splits)
  next
    case (ResumeSweep k)
    with assms show ?thesis
      by (auto simp: schedulePurge_resume_def purges_started_def
            split: if_splits sweep_task.splits)
  qed
  then show "purges_started w \<le> purges_started w'"
    and "purges_started w' = purges_started w \<Longrightarrow>
         upserts_since_purge_count w' =
           upserts_since_purge_count w + (if is_call e then 1 else 0)"
    by simp_all
qed

lemma run_started_mono:
  "run S t evs w = Some w' \<Longrightarrow> purges_started w \<le> purges_started w'"
proof (induction evs arbitrary: t w)
  case Nil
  then show ?case by simp
next
  case (Cons ev evs)
  obtain t' e where ev: "ev = (t', e)" by (cases ev)
  from Cons.prems ev obtain w1 where st: "step S t' e w = Some w1"
    and rn: "run S t' evs w1 = Some w'"
    by (auto split: if_splits option.splits)
  from step_counter(1) [OF st] Cons.IH [OF rn] show ?case by simp
qed

lemma run_counter:
  assumes "run S t evs w = Some w'" "purges_started w' = purges_started w"
  shows "upserts_since_purge_count w' = upserts_since_purge_count w + int (calls evs)"
  using assms
proof (induction evs arbitrary: t w)
  case Nil
  then show ?case by (simp add: calls_def)
next
  case (Cons ev evs)
  obtain t' e where ev: "ev = (t', e)" by (cases ev)
  from Cons.prems(1) ev obtain w1 where st: "step S t' e w = Some w1"
    and rn: "run S t' evs w1 = Some w'"
    by (auto split: if_splits option.splits)
  have same: "purges_started w1 = purges_started w" "purges_started w' = purges_started w1"
    using step_counter(1) [OF st] run_started_mono [OF rn] Cons.prems(2) by simp_all
  from Cons.IH [OF rn same(2)] step_counter(2) [OF st same(1)] ev
  show ?case by (simp add: calls_def)
qed

lemma counter_deleteVolatileRecords:
  "upserts_since_purge_count (fold (\<lambda>name w'. snd (destroyAll (f name) w')) names w) =
     upserts_since_purge_count w"
  by (induction names arbitrary: w) (simp_all add: destroyAll_def)

text \<open>
  Claim C8. A call of \<^verbatim>\<open>upsert\<close> adds one to
  \<^verbatim>\<open>upserts_since_purge_count\<close>, unless that reaches the threshold with no purge
  scheduled, where a purge is started and the counter is set to 0. In any run in which no
  purge is started, the counter grows by exactly the number of calls of
  \<^verbatim>\<open>upsert\<close> in the run, whatever else happens in it. \<^verbatim>\<open>find\<close>,
  \<^verbatim>\<open>findByUid\<close>, \<^verbatim>\<open>findByUserCode\<close> and \<^verbatim>\<open>get\<close> leave
  the whole state as it is (the counter, the scheduler and the suspended calls, so that
  they start no purge), and the other methods leave the counter as it is.
\<close>

theorem write_counter:
  "upserts_since_purge_count (snd (upsert tn i p e now now_s now_w w)) =
     (if purge_every_upserts_count w \<le> upserts_since_purge_count w + 1 \<and> \<not> purge_scheduled w
      then 0 else upserts_since_purge_count w + 1) \<and>
   (\<forall>w'. run S t evs w = Some w' \<longrightarrow> purges_started w' = purges_started w \<longrightarrow>
      upserts_since_purge_count w' = upserts_since_purge_count w + int (calls evs)) \<and>
   snd (find_op tn i now w) = w \<and>
   snd (findByUid jsonb tn uid now w) = w \<and>
   snd (findByUserCode jsonb tn userCode now w) = w \<and>
   snd (get ids orderBy tn w) = w \<and>
   upserts_since_purge_count (snd (consume toISOString tn i now w)) = upserts_since_purge_count w \<and>
   upserts_since_purge_count (snd (destroy tn i w)) = upserts_since_purge_count w \<and>
   upserts_since_purge_count (snd (revokeByGrantId jsonb tn grantId w)) =
     upserts_since_purge_count w \<and>
   upserts_since_purge_count (snd (destroyAll tn w)) = upserts_since_purge_count w \<and>
   upserts_since_purge_count (snd (getVolatileRecordsStats S w)) = upserts_since_purge_count w \<and>
   upserts_since_purge_count (snd (deleteVolatileRecords S w)) = upserts_since_purge_count w \<and>
   upserts_since_purge_count (snd (purge S now w)) = upserts_since_purge_count w \<and>
   upserts_since_purge_count (setPurgeProperties delay_prop count_prop w) =
     upserts_since_purge_count w"
proof -
  have u: "upserts_since_purge_count (snd (upsert tn i p e now now_s now_w w)) =
     (if purge_every_upserts_count w \<le> upserts_since_purge_count w + 1 \<and> \<not> purge_scheduled w
      then 0 else upserts_since_purge_count w + 1)"
    by (cases rule: upsert_begin_cases [of w p e now])
      (simp_all add: upsert_def split_beta Let_def)
  have c: "upserts_since_purge_count (snd (consume toISOString tn i now w)) =
      upserts_since_purge_count w"
    by (simp add: consume_def Let_def split: list.split)
  have s: "upserts_since_purge_count (setPurgeProperties delay_prop count_prop w) =
     upserts_since_purge_count w"
    by (simp add: setPurgeProperties_def Let_def split: option.split)
  have d: "upserts_since_purge_count (snd (deleteVolatileRecords S w)) =
      upserts_since_purge_count w"
    by (simp only: deleteVolatileRecords_def snd_conv counter_deleteVolatileRecords)
  show ?thesis
    using u c s d run_counter [of S t evs w]
    by (simp add: find_op_def findByUid_def findByUserCode_def get_def destroy_def
        revokeByGrantId_def destroyAll_def getVolatileRecordsStats_def purge_def
        split: option.split)
qed

lemma sample_few_facts:
  "run sample_toSnakeCase 0 sample_few sample_configured \<noteq> None \<and>
   purges_started (the (run sample_toSnakeCase 0 sample_few sample_configured)) =
     purges_started sample_configured \<and>
   upserts_since_purge_count sample_configured = 0 \<and> calls sample_few = 3"
  by code_simp

text \<open>
  The theorem at the sample: three calls, with the answer of the first call's select and the
  end of its write among them, below the threshold of 5.
\<close>

theorem write_counter_witness:
  "run sample_toSnakeCase 0 sample_few sample_configured =
     Some (the (run sample_toSnakeCase 0 sample_few sample_configured)) \<and>
   purges_started (the (run sample_toSnakeCase 0 sample_few sample_configured)) =
     purges_started sample_configured \<and>
   upserts_since_purge_count (the (run sample_toSnakeCase 0 sample_few sample_configured)) = 3"
proof -
  have r: "run sample_toSnakeCase 0 sample_few sample_configured =
     Some (the (run sample_toSnakeCase 0 sample_few sample_configured))"
    by (rule Some_the) (rule sample_few_facts [THEN conjunct1])
  have p: "purges_started (the (run sample_toSnakeCase 0 sample_few sample_configured)) =
     purges_started sample_configured"
    by (rule sample_few_facts [THEN conjunct2, THEN conjunct1])
  note c = write_counter [THEN conjunct2, THEN conjunct1, THEN spec, THEN mp, OF r, THEN mp, OF p]
  have "upserts_since_purge_count (the (run sample_toSnakeCase 0 sample_few sample_configured)) = 3"
    using c sample_few_facts by simp
  with r p show ?thesis by (intro conjI)
qed

end
